theory Spec2Isabelle
  imports Main "HOL-Library.Word"
begin

section \<open>The native half of FileObserver: android\_util\_FileObserver.cpp\<close>

text \<open>
  The file holds five JNI entry points around the inotify facility of Linux:
  \<^verbatim>\<open>init\<close>, \<^verbatim>\<open>observe\<close>, \<^verbatim>\<open>startWatching\<close>, \<^verbatim>\<open>stopWatching\<close> and \<^verbatim>\<open>release\<close>.
  They keep no data of their own besides the stack buffer of \<^verbatim>\<open>observe\<close>; everything
  else they do is a call to the operating system, to the JNI environment or to the log.
  The embedding therefore gives each entry point as a function from the answers of the
  outside world (the results of \<^verbatim>\<open>read\<close>, the behaviour of the Java callback) to the list
  of outside calls it makes, in the order it makes them, together with its return value.
\<close>

subsection \<open>Machine types and constants\<close>

type_synonym byte = "8 word"

text \<open>\<^verbatim>\<open>jint\<close> and the C type \<^verbatim>\<open>int\<close> are 32 bits wide; \<open>sint\<close> reads them signed.\<close>

type_synonym jint = "32 word"

type_synonym uint32 = "32 word"

text \<open>
  \<^verbatim>\<open>struct inotify_event { int wd; uint32_t mask; uint32_t cookie; uint32_t len; char name[]; }\<close>
  comes from \<^verbatim>\<open><sys/inotify.h>\<close>: four 32-bit fields, so \<^verbatim>\<open>sizeof(*event)\<close> is 16 and the
  name starts at offset 16. \<^verbatim>\<open>sizeof(event_buf)\<close> is 512. \<^verbatim>\<open>EINTR\<close> is 4 on Linux.
\<close>

definition sizeof_event :: int where
  "sizeof_event = 16"

definition sizeof_event_buf :: nat where
  "sizeof_event_buf = 512"

definition EINTR :: int where
  "EINTR = 4"

record inotify_event =
  e_wd :: jint
  e_mask :: uint32
  e_cookie :: uint32
  e_len :: uint32

text \<open>
  The cast \<^verbatim>\<open>(struct inotify_event *) (event_buf + event_pos)\<close> reads the fields in the byte
  order of the machine; every Android ABI is little-endian.
\<close>

definition le32 :: "byte \<Rightarrow> byte \<Rightarrow> byte \<Rightarrow> byte \<Rightarrow> 32 word" where
  "le32 b0 b1 b2 b3 =
     of_nat (unat b0 + 256 * unat b1 + 65536 * unat b2 + 16777216 * unat b3)"

definition field32 :: "byte list \<Rightarrow> nat \<Rightarrow> 32 word" where
  "field32 buf off = le32 (buf ! off) (buf ! (off + 1)) (buf ! (off + 2)) (buf ! (off + 3))"

definition event_at :: "byte list \<Rightarrow> nat \<Rightarrow> inotify_event" where
  "event_at buf p =
     \<lparr>e_wd = field32 buf p, e_mask = field32 buf (p + 4),
      e_cookie = field32 buf (p + 8), e_len = field32 buf (p + 12)\<rparr>"

text \<open>
  \<^verbatim>\<open>NewStringUTF(event->name)\<close> reads a C string: the bytes from the given offset up to
  the first NUL. When no NUL follows inside \<^verbatim>\<open>event_buf\<close> the read leaves the array,
  which is undefined behaviour: \<open>None\<close>. The Java string is kept as its bytes; that
  \<^verbatim>\<open>NewStringUTF\<close> may fail for lack of memory is left out.
\<close>

definition c_string :: "byte list \<Rightarrow> nat \<Rightarrow> byte list option" where
  "c_string buf off =
     (let rest = drop off buf
      in if 0 \<in> set rest then Some (takeWhile (\<lambda>b. b \<noteq> 0) rest) else None)"

subsection \<open>The outside world\<close>

text \<open>
  The calls an entry point makes, with their arguments. Queries without effect
  (\<^verbatim>\<open>ExceptionCheck\<close>) are not recorded.
\<close>

datatype call =
    Sys_inotify_init
  | Sys_read jint
  | Sys_inotify_add_watch jint "byte list" jint
  | Sys_inotify_rm_watch jint uint32
  | Sys_close jint
  | Jni_NewStringUTF "byte list"
  | Jni_onEvent jint uint32 "byte list option"
  | Jni_ExceptionDescribe
  | Jni_ExceptionClear
  | Jni_DeleteLocalRef "byte list"
  | Jni_GetStringUTFChars "byte list"
  | Jni_ReleaseStringUTFChars "byte list"
  | ALOGE_short_event

text \<open>
  The Java method \<^verbatim>\<open>onEvent(int wd, int mask, String path)\<close> is the sink: from the state
  of the Java side and its three arguments it gives the new state and whether it left an
  exception pending.
\<close>

type_synonym 'j sink = "'j \<Rightarrow> jint \<Rightarrow> uint32 \<Rightarrow> byte list option \<Rightarrow> bool \<times> 'j"

text \<open>
  What one call of \<^verbatim>\<open>read(fd, event_buf, sizeof(event_buf))\<close> gives: either it fails,
  returning -1 with \<^verbatim>\<open>errno\<close> set, or it returns the bytes it wrote to the front of
  \<^verbatim>\<open>event_buf\<close>, at most 512; \<^verbatim>\<open>errno\<close> then holds whatever an earlier call left there.
  The second argument of \<open>ReadBytes\<close> is that value.
\<close>

datatype read_result =
    ReadFail int
  | ReadBytes "byte list" int

fun read_ret :: "read_result \<Rightarrow> int" where
  "read_ret (ReadFail e) = - 1"
| "read_ret (ReadBytes bs e) = int (length (take sizeof_event_buf bs))"

fun read_errno :: "read_result \<Rightarrow> int" where
  "read_errno (ReadFail e) = e"
| "read_errno (ReadBytes bs e) = e"

fun read_into :: "byte list \<Rightarrow> read_result \<Rightarrow> byte list" where
  "read_into buf (ReadFail e) = buf"
| "read_into buf (ReadBytes bs e) =
     (let d = take sizeof_event_buf bs in d @ drop (length d) buf)"

datatype status = Finished | Returned | BlockedInRead | OutOfFuel | Undefined

subsection \<open>observe\<close>

text \<open>
  One pass through the body of the inner loop (lines 57 to 75) with the cursor at
  \<open>event_pos\<close>: the calls made, \<^verbatim>\<open>event_size\<close>, and the new state of the Java side.
  \<^verbatim>\<open>event_size = sizeof(*event) + event->len\<close> is computed in \<^verbatim>\<open>size_t\<close> and stored in an
  \<^verbatim>\<open>int\<close>, which keeps the low 32 bits, read signed. Reading the header outside
  \<^verbatim>\<open>event_buf\<close> is undefined behaviour, \<open>None\<close>.
\<close>

definition event_path :: "byte list \<Rightarrow> nat \<Rightarrow> byte list option option" where
  "event_path buf p =
     (if 0 < e_len (event_at buf p) then map_option Some (c_string buf (p + 16))
      else Some None)"

definition dispatch_event ::
  "'j sink \<Rightarrow> byte list \<Rightarrow> int \<Rightarrow> 'j \<Rightarrow> (call list \<times> int \<times> 'j) option" where
  "dispatch_event sink buf event_pos j =
     (if event_pos < 0 \<or> int (length buf) < event_pos + sizeof_event then None
      else
        let p = nat event_pos; event = event_at buf p
        in case event_path buf p of
             None \<Rightarrow> None
           | Some path \<Rightarrow>
               let (threw, j') = sink j (e_wd event) (e_mask event) path;
                   event_size = sint (16 + e_len event)
               in Some
                 ((case path of None \<Rightarrow> [] | Some s \<Rightarrow> [Jni_NewStringUTF s]) @
                  [Jni_onEvent (e_wd event) (e_mask event) path] @
                  (if threw then [Jni_ExceptionDescribe, Jni_ExceptionClear] else []) @
                  (case path of None \<Rightarrow> [] | Some s \<Rightarrow> [Jni_DeleteLocalRef s]),
                  event_size, j'))"

text \<open>
  \<^verbatim>\<open>num_bytes\<close> and \<^verbatim>\<open>event_pos\<close> are of type \<^verbatim>\<open>int\<close>: the two updates at the end of a pass
  are undefined behaviour when their results do not fit.
\<close>

definition in_int_range :: "int \<Rightarrow> bool" where
  "in_int_range x \<longleftrightarrow> - (2 ^ 31) \<le> x \<and> x < 2 ^ 31"

text \<open>
  The inner loop \<^verbatim>\<open>while (num_bytes >= (int) sizeof(*event))\<close>. Nothing in the source bounds
  the number of its passes, so the model counts them down from \<open>fuel\<close> and answers
  \<open>OutOfFuel\<close> when the loop would still go on. Each pass that got as far as the callback
  is reported with the cursor it started from.
\<close>

record iteration =
  cursor :: int
  calls :: "call list"

fun decode_loop ::
  "nat \<Rightarrow> 'j sink \<Rightarrow> byte list \<Rightarrow> int \<Rightarrow> int \<Rightarrow> 'j \<Rightarrow> iteration list \<times> status \<times> 'j" where
  "decode_loop 0 sink buf num_bytes event_pos j =
     (if num_bytes \<ge> sizeof_event then ([], OutOfFuel, j) else ([], Finished, j))"
| "decode_loop (Suc fuel) sink buf num_bytes event_pos j =
     (if num_bytes \<ge> sizeof_event then
        (case dispatch_event sink buf event_pos j of
           None \<Rightarrow> ([], Undefined, j)
         | Some (cs, event_size, j') \<Rightarrow>
             if in_int_range (num_bytes - event_size) \<and> in_int_range (event_pos + event_size)
             then
               (case decode_loop fuel sink buf (num_bytes - event_size) (event_pos + event_size) j' of
                  (its, st, j'') \<Rightarrow> (\<lparr>cursor = event_pos, calls = cs\<rparr> # its, st, j''))
             else ([\<lparr>cursor = event_pos, calls = cs\<rparr>], Undefined, j'))
      else ([], Finished, j))"

text \<open>
  The outer loop \<^verbatim>\<open>while (1)\<close>, against the list of what the successive reads give. When
  the list is used up the read blocks. \<open>fuel\<close> bounds the inner loop of each read.
\<close>

fun android_os_fileobserver_observe ::
  "nat \<Rightarrow> 'j sink \<Rightarrow> jint \<Rightarrow> read_result list \<Rightarrow> byte list \<Rightarrow> 'j \<Rightarrow> call list \<times> status \<times> 'j" where
  "android_os_fileobserver_observe fuel sink fd [] event_buf j =
     ([Sys_read fd], BlockedInRead, j)"
| "android_os_fileobserver_observe fuel sink fd (r # rs) event_buf j =
     (let num_bytes = read_ret r; event_buf' = read_into event_buf r
      in if num_bytes < sizeof_event then
           (if read_errno r = EINTR then
              (case android_os_fileobserver_observe fuel sink fd rs event_buf' j of
                 (cs, st, j') \<Rightarrow> (Sys_read fd # cs, st, j'))
            else ([Sys_read fd, ALOGE_short_event], Returned, j))
         else
           (case decode_loop fuel sink event_buf' num_bytes 0 j of
              (its, Finished, j') \<Rightarrow>
                (case android_os_fileobserver_observe fuel sink fd rs event_buf' j' of
                   (cs, st, j'') \<Rightarrow> (Sys_read fd # concat (map calls its) @ cs, st, j''))
            | (its, st, j') \<Rightarrow> (Sys_read fd # concat (map calls its), st, j')))"

subsection \<open>init, startWatching, stopWatching, release\<close>

text \<open>\<open>r\<close> is what \<^verbatim>\<open>inotify_init\<close> returns.\<close>

definition android_os_fileobserver_init :: "jint \<Rightarrow> call list \<times> jint" where
  "android_os_fileobserver_init r = ([Sys_inotify_init], r)"

text \<open>\<open>r\<close> is what \<^verbatim>\<open>inotify_add_watch\<close> returns if it is called.\<close>

definition android_os_fileobserver_startWatching ::
  "jint \<Rightarrow> byte list \<Rightarrow> jint \<Rightarrow> jint \<Rightarrow> call list \<times> jint" where
  "android_os_fileobserver_startWatching fd pathString mask_arg r =
     (if 0 \<le> sint fd then
        ([Jni_GetStringUTFChars pathString, Sys_inotify_add_watch fd pathString mask_arg,
          Jni_ReleaseStringUTFChars pathString], r)
      else ([], - 1))"

text \<open>
  The cast \<^verbatim>\<open>(uint32_t) wfd\<close> keeps the 32 bits. The result of \<^verbatim>\<open>inotify_rm_watch\<close> is
  dropped; the function returns nothing.
\<close>

definition android_os_fileobserver_stopWatching :: "jint \<Rightarrow> jint \<Rightarrow> call list" where
  "android_os_fileobserver_stopWatching fd wfd = [Sys_inotify_rm_watch fd wfd]"

definition release :: "jint \<Rightarrow> call list" where
  "release fd = (if 0 \<le> sint fd then [Sys_close fd] else [])"

subsection \<open>Reading the traces\<close>

text \<open>The events handed to the sink, in the order of the calls.\<close>

fun events_of :: "call list \<Rightarrow> (jint \<times> uint32 \<times> byte list option) list" where
  "events_of [] = []"
| "events_of (Jni_onEvent w m p # cs) = (w, m, p) # events_of cs"
| "events_of (c # cs) = events_of cs"

text \<open>A sink that does to the Java side what \<open>sink\<close> does and never leaves an exception.\<close>

definition no_throw :: "'j sink \<Rightarrow> 'j sink" where
  "no_throw sink = (\<lambda>j w m p. (False, snd (sink j w m p)))"

definition strip_exception_calls :: "call list \<Rightarrow> call list" where
  "strip_exception_calls cs =
     filter (\<lambda>c. c \<noteq> Jni_ExceptionDescribe \<and> c \<noteq> Jni_ExceptionClear) cs"

subsection \<open>Raw records as the specification describes them\<close>

text \<open>
  A raw record is its bytes: the 16 bytes of the header, then the name field. It is
  well formed when the name field has the declared length and, unless that is 0, holds a
  NUL (the kernel ends every name with one and pads with more).
\<close>

definition well_formed_record :: "byte list \<Rightarrow> bool" where
  "well_formed_record r \<longleftrightarrow>
     length r = 16 + unat (field32 r 12) \<and>
     (unat (field32 r 12) = 0 \<or> 0 \<in> set (drop 16 r))"

text \<open>
  The decoded event of a record in the words of the specification: handle, mask, and the
  name cut at the first NUL inside the declared length, or no name when that length is 0.
\<close>

definition spec_decoded_event :: "byte list \<Rightarrow> jint \<times> uint32 \<times> byte list option" where
  "spec_decoded_event r =
     (field32 r 0, field32 r 4,
      if unat (field32 r 12) = 0 then None
      else Some (takeWhile (\<lambda>b. b \<noteq> 0) (take (unat (field32 r 12)) (drop 16 r))))"

text \<open>Where each record of a packed sequence starts, the first one at \<open>pos\<close>.\<close>

fun record_offsets :: "int \<Rightarrow> byte list list \<Rightarrow> int list" where
  "record_offsets pos [] = []"
| "record_offsets pos (r # rs) = pos # record_offsets (pos + int (length r)) rs"

subsection \<open>The descriptor table of the operating system\<close>

text \<open>
  The table is kept by the OS, not by this file: it maps a channel and a watch handle to
  the watched path and mask.
\<close>

type_synonym descriptor_table = "jint \<times> uint32 \<rightharpoonup> byte list \<times> jint"

text \<open>
  Modelled from the spec: the remove operation of the OS transport, which is not part of
  this repository. It deregisters a registered handle; for a handle that is not registered
  on the channel it fails, returning -1, and changes nothing.
\<close>

definition inotify_rm_watch ::
  "jint \<Rightarrow> uint32 \<Rightarrow> descriptor_table \<Rightarrow> int \<times> descriptor_table" where
  "inotify_rm_watch fd wd t =
     (if (fd, wd) \<in> dom t then (0, t((fd, wd) := None)) else (- 1, t))"

text \<open>
  Modelled from the spec: what the remove calls of a trace, taken in order, do to the
  table of the OS.
\<close>

fun table_after_removals :: "call list \<Rightarrow> descriptor_table \<Rightarrow> descriptor_table" where
  "table_after_removals [] t = t"
| "table_after_removals (Sys_inotify_rm_watch fd wd # cs) t =
     table_after_removals cs (snd (inotify_rm_watch fd wd t))"
| "table_after_removals (c # cs) t = table_after_removals cs t"

subsection \<open>Inputs for the examples\<close>

text \<open>A sink over a Java side that counts the calls, and one that also throws each time.\<close>

definition counting_sink :: "nat sink" where
  "counting_sink j w m p = (False, Suc j)"

definition throwing_sink :: "nat sink" where
  "throwing_sink j w m p = (True, Suc j)"

text \<open>
  A record for handle 1 with mask \<^verbatim>\<open>IN_CREATE\<close> and the name \<^verbatim>\<open>a.txt\<close> padded to 8 bytes,
  and one for handle 1 with mask \<^verbatim>\<open>IN_DELETE\<close> and no name.
\<close>

definition record_create :: "byte list" where
  "record_create =
     [1, 0, 0, 0, 0, 1, 0, 0, 0, 0, 0, 0, 8, 0, 0, 0, 97, 46, 116, 120, 116, 0, 0, 0]"

definition record_delete :: "byte list" where
  "record_delete = [1, 0, 0, 0, 0, 2, 0, 0, 0, 0, 0, 0, 0, 0, 0, 0]"

text \<open>A header alone that declares 8 bytes of name, and one that declares \<open>2\<^sup>3\<^sup>2 - 16\<close>.\<close>

definition header_len8 :: "byte list" where
  "header_len8 = [1, 0, 0, 0, 0, 1, 0, 0, 0, 0, 0, 0, 8, 0, 0, 0]"

definition header_wrap :: "byte list" where
  "header_wrap = [1, 0, 0, 0, 0, 1, 0, 0, 0, 0, 0, 0, 240, 255, 255, 255]"

text \<open>\<^verbatim>\<open>event_buf\<close> holding zeros, and holding \<^verbatim>\<open>b\<close>, NUL from offset 16 on.\<close>

definition zero_buf :: "byte list" where
  "zero_buf = replicate 512 0"

definition stale_buf :: "byte list" where
  "stale_buf = replicate 16 0 @ [98, 0] @ replicate 494 0"

section \<open>Properties\<close>

subsection \<open>Helper facts\<close>

lemma events_of_append: "events_of (xs @ ys) = events_of xs @ events_of ys"
  by (induction xs rule: events_of.induct) simp_all

lemma event_size_no_wrap:
  fixes l :: "32 word"
  assumes "unat l < 2 ^ 31 - 16"
  shows "sint (16 + l) = 16 + int (unat l)"
proof -
  have u: "unat (16 + l) = 16 + unat l"
    using assms unat_add_lem [of 16 l] by simp
  have a: "unat l < 2147483632" using assms by simp
  have ul: "uint l < 2147483632"
    using a uint_nat [of l] by linarith
  have us: "uint (16 + l) = 16 + uint l"
    using u uint_nat [of l] uint_nat [of "16 + l"] by linarith
  have "sint (16 + l) = signed_take_bit 31 (uint (16 + l))"
    by (simp add: sint_uint)
  also have "\<dots> = uint (16 + l)"
    using ul us by (intro signed_take_bit_int_eq_self) simp_all
  finally show ?thesis using us by simp
qed

lemma c_string_first_nul:
  assumes "off + p < length buf" "buf ! (off + p) = 0" "\<forall>i<p. buf ! (off + i) \<noteq> 0"
  shows "c_string buf off = Some (take p (drop off buf))"
proof -
  let ?rest = "drop off buf"
  have len: "p < length ?rest" using assms(1) by simp
  have z: "?rest ! p = 0" using assms(1,2) by simp
  have nz: "\<forall>i<p. ?rest ! i \<noteq> 0" using assms(1,3) by simp
  have "0 \<in> set ?rest" using len z by (metis nth_mem)
  moreover have "takeWhile (\<lambda>b. b \<noteq> 0) ?rest = take p ?rest"
    using len z nz by (intro takeWhile_eq_take_P_nth) simp_all
  ultimately show ?thesis by (simp add: c_string_def)
qed

lemma field32_append:
  "off + 4 \<le> length r \<Longrightarrow> field32 (pre @ r @ post) (length pre + off) = field32 r off"
  by (simp add: field32_def nth_append)

lemma event_at_append:
  assumes "16 \<le> length r"
  shows "event_at (pre @ r @ post) (length pre) =
     \<lparr>e_wd = field32 r 0, e_mask = field32 r 4, e_cookie = field32 r 8, e_len = field32 r 12\<rparr>"
  using assms field32_append [of 0 r pre post] field32_append [of 4 r pre post]
    field32_append [of 8 r pre post] field32_append [of 12 r pre post]
  by (simp add: event_at_def)

lemma event_path_record:
  assumes wf: "well_formed_record r"
  shows "event_path (pre @ r @ post) (length pre) = Some (snd (snd (spec_decoded_event r)))"
proof -
  let ?buf = "pre @ r @ post"
  let ?l = "field32 r 12"
  have lr: "length r = 16 + unat ?l" using wf by (simp add: well_formed_record_def)
  have ea: "e_len (event_at ?buf (length pre)) = ?l"
    using event_at_append [of r pre post] lr by simp
  show ?thesis
  proof (cases "unat ?l = 0")
    case True
    then have "?l = 0" by (simp add: unat_eq_0)
    then show ?thesis using ea by (simp add: event_path_def spec_decoded_event_def)
  next
    case False
    then have pos_len: "0 < ?l" by (simp add: word_greater_zero_iff unat_eq_0)
    from False wf have nul: "0 \<in> set (drop 16 r)" by (simp add: well_formed_record_def)
    have tw: "takeWhile (\<lambda>b. b \<noteq> 0) (drop 16 r @ post) = takeWhile (\<lambda>b. b \<noteq> 0) (drop 16 r)"
      by (rule takeWhile_append1 [OF nul]) simp
    have dr: "drop (length pre + 16) ?buf = drop 16 r @ post"
      using lr by simp
    have cs: "c_string ?buf (length pre + 16) = Some (takeWhile (\<lambda>b. b \<noteq> 0) (drop 16 r))"
      unfolding c_string_def dr Let_def using nul tw by simp
    have tk: "take (unat ?l) (drop 16 r) = drop 16 r" using lr by simp
    show ?thesis
      unfolding event_path_def ea spec_decoded_event_def cs tk using pos_len False by simp
  qed
qed

lemma dispatch_event_SomeD:
  assumes "dispatch_event sink buf event_pos j = Some (cs, sz, j')"
  shows "0 \<le> event_pos \<and> event_pos + sizeof_event \<le> int (length buf) \<and>
         (\<exists>path. event_path buf (nat event_pos) = Some path \<and>
            events_of cs =
              [(e_wd (event_at buf (nat event_pos)), e_mask (event_at buf (nat event_pos)), path)] \<and>
            j' = snd (sink j (e_wd (event_at buf (nat event_pos)))
                   (e_mask (event_at buf (nat event_pos))) path)) \<and>
         sz = sint (16 + e_len (event_at buf (nat event_pos)))"
  using assms
  by (auto simp: dispatch_event_def Let_def events_of_append
      split: if_splits option.splits prod.splits)

lemma dispatch_event_no_log:
  assumes "dispatch_event sink buf event_pos j = Some (cs, sz, j')"
  shows "ALOGE_short_event \<notin> set cs"
  using assms
  by (auto simp: dispatch_event_def Let_def split: if_splits option.splits prod.splits)

lemma dispatch_event_SomeI:
  assumes "0 \<le> event_pos" "event_pos + sizeof_event \<le> int (length buf)"
    and "event_path buf (nat event_pos) = Some path"
  shows "\<exists>cs. dispatch_event sink buf event_pos j =
           Some (cs, sint (16 + e_len (event_at buf (nat event_pos))),
             snd (sink j (e_wd (event_at buf (nat event_pos)))
               (e_mask (event_at buf (nat event_pos))) path))"
  using assms by (simp add: dispatch_event_def Let_def split: prod.split)

lemma dispatch_event_record:
  assumes wf: "well_formed_record r" and len: "length r \<le> 512"
  shows "\<exists>cs j'. dispatch_event sink (pre @ r @ post) (int (length pre)) j =
            Some (cs, int (length r), j') \<and> events_of cs = [spec_decoded_event r]"
proof -
  let ?buf = "pre @ r @ post"
  let ?l = "field32 r 12"
  have lr: "length r = 16 + unat ?l" using wf by (simp add: well_formed_record_def)
  have ea: "event_at ?buf (length pre) =
     \<lparr>e_wd = field32 r 0, e_mask = field32 r 4, e_cookie = field32 r 8, e_len = ?l\<rparr>"
    using event_at_append [of r pre post] lr by simp
  have ep: "event_path ?buf (nat (int (length pre))) = Some (snd (snd (spec_decoded_event r)))"
    using event_path_record [OF wf, of pre post] by simp
  have sz: "sint (16 + ?l) = int (length r)"
    using event_size_no_wrap [of ?l] lr len by simp
  have b1: "0 \<le> int (length pre)" by simp
  have b2: "int (length pre) + sizeof_event \<le> int (length ?buf)"
    using lr by (simp add: sizeof_event_def)
  from dispatch_event_SomeI [OF b1 b2 ep, of sink j]
  obtain cs where d: "dispatch_event sink ?buf (int (length pre)) j =
      Some (cs, int (length r),
        snd (sink j (field32 r 0) (field32 r 4) (snd (snd (spec_decoded_event r)))))"
    using ea sz by auto
  from dispatch_event_SomeD [OF d] ep ea
  have "events_of cs = [(field32 r 0, field32 r 4, snd (snd (spec_decoded_event r)))]"
    by simp
  then have "events_of cs = [spec_decoded_event r]"
    by (simp add: spec_decoded_event_def)
  with d show ?thesis by blast
qed

lemma decode_loop_done:
  "num_bytes < sizeof_event \<Longrightarrow> decode_loop fuel sink buf num_bytes event_pos j = ([], Finished, j)"
  by (cases fuel) simp_all

lemma decode_loop_step:
  assumes "sizeof_event \<le> num_bytes"
    and "dispatch_event sink buf event_pos j = Some (cs, sz, j1)"
    and "in_int_range (num_bytes - sz)" "in_int_range (event_pos + sz)"
    and "decode_loop fuel sink buf (num_bytes - sz) (event_pos + sz) j1 = (its, st, j2)"
  shows "decode_loop (Suc fuel) sink buf num_bytes event_pos j =
           (\<lparr>cursor = event_pos, calls = cs\<rparr> # its, st, j2)"
  using assms by simp

lemma length_record_offsets: "length (record_offsets pos rs) = length rs"
  by (induction rs arbitrary: pos) simp_all

lemma decode_loop_records:
  assumes "\<forall>r\<in>set rs. well_formed_record r" "length (concat rs) \<le> 512" "length rs \<le> fuel"
    and "length pre + length (concat rs) < 2 ^ 31"
  shows "case decode_loop fuel sink (pre @ concat rs @ post) (int (length (concat rs)))
                (int (length pre)) j of
           (its, st, j') \<Rightarrow>
             st = Finished \<and> map cursor its = record_offsets (int (length pre)) rs \<and>
             events_of (concat (map calls its)) = map spec_decoded_event rs"
  using assms
proof (induction rs arbitrary: fuel pre j)
  case Nil
  then show ?case by (cases fuel) (simp_all add: sizeof_event_def)
next
  case (Cons r rs)
  from Cons.prems(3) obtain f where fuel: "fuel = Suc f" and f: "length rs \<le> f"
    by (cases fuel) simp_all
  have wf: "well_formed_record r" and wfs: "\<forall>r\<in>set rs. well_formed_record r"
    using Cons.prems(1) by simp_all
  have len: "length r \<le> 512" and lens: "length (concat rs) \<le> 512"
    using Cons.prems(2) by simp_all
  have l16: "16 \<le> length r" using wf by (simp add: well_formed_record_def)
  from dispatch_event_record [OF wf len, of sink pre "concat rs @ post" j]
  obtain cs j1 where
    d: "dispatch_event sink (pre @ r @ concat rs @ post) (int (length pre)) j =
          Some (cs, int (length r), j1)"
    and ev: "events_of cs = [spec_decoded_event r]"
    by blast
  obtain its st j2 where
    rec: "decode_loop f sink (pre @ r @ concat rs @ post) (int (length (concat rs)))
            (int (length pre) + int (length r)) j1 = (its, st, j2)"
    by (cases "decode_loop f sink (pre @ r @ concat rs @ post) (int (length (concat rs)))
            (int (length pre) + int (length r)) j1") auto
  have tot: "length (pre @ r) + length (concat rs) < 2 ^ 31"
    using Cons.prems(4) by simp
  have r1: "in_int_range (int (length (concat (r # rs))) - int (length r))"
    using lens by (simp add: in_int_range_def)
  have r2: "in_int_range (int (length pre) + int (length r))"
    using Cons.prems(4) by (simp add: in_int_range_def)
  from Cons.IH [OF wfs lens f tot, where j = j1] rec
  have ih: "st = Finished \<and> map cursor its = record_offsets (int (length pre) + int (length r)) rs \<and>
      events_of (concat (map calls its)) = map spec_decoded_event rs"
    by simp
  have "decode_loop fuel sink (pre @ concat (r # rs) @ post) (int (length (concat (r # rs))))
      (int (length pre)) j = (\<lparr>cursor = int (length pre), calls = cs\<rparr> # its, st, j2)"
    using fuel l16 d rec r1 r2 by (simp add: sizeof_event_def)
  then show ?case using ih ev by (simp add: events_of_append)
qed

lemma decode_loop_cases:
  obtains (fin) "num_bytes < sizeof_event"
      "decode_loop fuel sink buf num_bytes event_pos j = ([], Finished, j)"
  | (nofuel) "sizeof_event \<le> num_bytes" "fuel = 0"
      "decode_loop fuel sink buf num_bytes event_pos j = ([], OutOfFuel, j)"
  | (undef) f where "sizeof_event \<le> num_bytes" "fuel = Suc f"
      "dispatch_event sink buf event_pos j = None"
      "decode_loop fuel sink buf num_bytes event_pos j = ([], Undefined, j)"
  | (overflow) f cs sz j1 where "sizeof_event \<le> num_bytes" "fuel = Suc f"
      "dispatch_event sink buf event_pos j = Some (cs, sz, j1)"
      "\<not> (in_int_range (num_bytes - sz) \<and> in_int_range (event_pos + sz))"
      "decode_loop fuel sink buf num_bytes event_pos j =
         ([\<lparr>cursor = event_pos, calls = cs\<rparr>], Undefined, j1)"
  | (step) f cs sz j1 its st j2 where "sizeof_event \<le> num_bytes" "fuel = Suc f"
      "dispatch_event sink buf event_pos j = Some (cs, sz, j1)"
      "in_int_range (num_bytes - sz)" "in_int_range (event_pos + sz)"
      "decode_loop f sink buf (num_bytes - sz) (event_pos + sz) j1 = (its, st, j2)"
      "decode_loop fuel sink buf num_bytes event_pos j =
         (\<lparr>cursor = event_pos, calls = cs\<rparr> # its, st, j2)"
proof (cases "num_bytes < sizeof_event")
  case True
  show ?thesis by (rule fin [OF True decode_loop_done [OF True]])
next
  case False
  then have ge: "sizeof_event \<le> num_bytes" by simp
  show ?thesis
  proof (cases fuel)
    case 0
    then show ?thesis using ge nofuel by simp
  next
    case (Suc f)
    show ?thesis
    proof (cases "dispatch_event sink buf event_pos j")
      case None
      then show ?thesis using ge Suc undef by simp
    next
      case (Some t)
      obtain cs sz j1 where t: "t = (cs, sz, j1)" by (cases t) auto
      obtain its st j2 where
        r: "decode_loop f sink buf (num_bytes - sz) (event_pos + sz) j1 = (its, st, j2)"
        by (cases "decode_loop f sink buf (num_bytes - sz) (event_pos + sz) j1") auto
      show ?thesis
      proof (cases "in_int_range (num_bytes - sz) \<and> in_int_range (event_pos + sz)")
        case True
        then have i1: "in_int_range (num_bytes - sz)" and i2: "in_int_range (event_pos + sz)"
          by simp_all
        show ?thesis
          using step [OF ge Suc Some [unfolded t] i1 i2 r]
            decode_loop_step [OF ge Some [unfolded t] i1 i2 r] Suc
          by simp
      next
        case False
        have dl: "decode_loop fuel sink buf num_bytes event_pos j =
            ([\<lparr>cursor = event_pos, calls = cs\<rparr>], Undefined, j1)"
          using ge Suc Some t False by auto
        show ?thesis by (rule overflow [OF ge Suc Some [unfolded t] False dl])
      qed
    qed
  qed
qed

lemma decode_loop_bound:
  assumes "\<forall>it \<in> set (fst (decode_loop fuel sink buf num_bytes event_pos j)).
             unat (e_len (event_at buf (nat (cursor it)))) < 2 ^ 31 - 16"
  shows "length (fst (decode_loop fuel sink buf num_bytes event_pos j)) \<le> nat num_bytes div 16 \<and>
         length (events_of (concat (map calls (fst (decode_loop fuel sink buf num_bytes event_pos j)))))
           = length (fst (decode_loop fuel sink buf num_bytes event_pos j)) \<and>
         successively (\<lambda>a b. cursor a + sizeof_event \<le> cursor b)
           (fst (decode_loop fuel sink buf num_bytes event_pos j)) \<and>
         (\<forall>it \<in> set (fst (decode_loop fuel sink buf num_bytes event_pos j)). event_pos \<le> cursor it) \<and>
         (fst (decode_loop fuel sink buf num_bytes event_pos j) \<noteq> [] \<longrightarrow>
            cursor (hd (fst (decode_loop fuel sink buf num_bytes event_pos j))) = event_pos) \<and>
         (nat num_bytes div 16 \<le> fuel \<longrightarrow>
            fst (snd (decode_loop fuel sink buf num_bytes event_pos j)) \<noteq> OutOfFuel)"
  using assms
proof (induction fuel arbitrary: num_bytes event_pos j)
  case 0
  show ?case
  proof (cases "num_bytes < sizeof_event")
    case True
    then show ?thesis by simp
  next
    case False
    then have "16 \<le> nat num_bytes" by (simp add: sizeof_event_def)
    then have "1 \<le> nat num_bytes div 16" by simp
    then show ?thesis using False by simp
  qed
next
  case (Suc f)
  show ?case
  proof (cases rule: decode_loop_cases [of num_bytes "Suc f" sink buf event_pos j])
    case fin
    then show ?thesis by simp
  next
    case nofuel
    then show ?thesis by simp
  next
    case (undef f')
    then show ?thesis by simp
  next
    case (overflow f' cs sz j1)
    have ev1: "length (events_of cs) = 1"
      using dispatch_event_SomeD [OF overflow(3)] by auto
    have "16 \<le> nat num_bytes" using overflow(1) by (simp add: sizeof_event_def)
    then have "1 \<le> nat num_bytes div 16" by simp
    then show ?thesis unfolding overflow(5) using ev1 by (simp add: events_of_append)
  next
    case (step f' cs sz j1 its st j2)
    have f': "f' = f" using step(2) by simp
    note rec = step(6) [unfolded f']
    have here: "unat (e_len (event_at buf (nat event_pos))) < 2 ^ 31 - 16"
      using Suc.prems step(7) by simp
    have sz: "sz = 16 + int (unat (e_len (event_at buf (nat event_pos))))"
      using dispatch_event_SomeD [OF step(3)] event_size_no_wrap [OF here] by simp
    then have sz16: "16 \<le> sz" by simp
    have ev1: "length (events_of cs) = 1"
      using dispatch_event_SomeD [OF step(3)] by auto
    have "\<forall>it \<in> set (fst (decode_loop f sink buf (num_bytes - sz) (event_pos + sz) j1)).
             unat (e_len (event_at buf (nat (cursor it)))) < 2 ^ 31 - 16"
      using Suc.prems step(7) rec by simp
    from Suc.IH [OF this] rec
    have ih: "length its \<le> nat (num_bytes - sz) div 16"
      "length (events_of (concat (map calls its))) = length its"
      "successively (\<lambda>a b. cursor a + sizeof_event \<le> cursor b) its"
      "\<forall>it \<in> set its. event_pos + sz \<le> cursor it"
      "its \<noteq> [] \<longrightarrow> cursor (hd its) = event_pos + sz"
      "nat (num_bytes - sz) div 16 \<le> f \<longrightarrow> st \<noteq> OutOfFuel"
      by simp_all
    have nb: "16 \<le> num_bytes" using step(1) by (simp add: sizeof_event_def)
    have a1: "Suc (nat (num_bytes - sz) div 16) \<le> nat num_bytes div 16"
      using nb sz16 by linarith
    have c1: "length (\<lparr>cursor = event_pos, calls = cs\<rparr> # its) \<le> nat num_bytes div 16"
      using ih(1) a1 by simp
    have c2: "length (events_of (concat (map calls (\<lparr>cursor = event_pos, calls = cs\<rparr> # its))))
        = length (\<lparr>cursor = event_pos, calls = cs\<rparr> # its)"
      using ih(2) ev1 by (simp add: events_of_append)
    have c3: "successively (\<lambda>a b. cursor a + sizeof_event \<le> cursor b)
        (\<lparr>cursor = event_pos, calls = cs\<rparr> # its)"
      using ih(3,5) sz16 by (cases its) (simp_all add: sizeof_event_def)
    have c4: "\<forall>it \<in> set (\<lparr>cursor = event_pos, calls = cs\<rparr> # its). event_pos \<le> cursor it"
      using ih(4) sz16 by auto
    have c6: "nat num_bytes div 16 \<le> Suc f \<longrightarrow> st \<noteq> OutOfFuel"
      using ih(6) a1 by simp
    show ?thesis unfolding step(7) using c1 c2 c3 c4 c6 by simp
  qed
qed

lemma strip_exception_calls_append:
  "strip_exception_calls (xs @ ys) = strip_exception_calls xs @ strip_exception_calls ys"
  by (simp add: strip_exception_calls_def)

lemma strip_exception_calls_concat:
  "strip_exception_calls (concat (map calls its)) =
     concat (map calls (map (\<lambda>it. it\<lparr>calls := strip_exception_calls (calls it)\<rparr>) its))"
  by (induction its) (simp_all add: strip_exception_calls_append, simp add: strip_exception_calls_def)

lemma dispatch_event_no_throw:
  "dispatch_event (no_throw sink) buf event_pos j =
     map_option (\<lambda>(cs, sz, j'). (strip_exception_calls cs, sz, j'))
       (dispatch_event sink buf event_pos j)"
  by (auto simp: dispatch_event_def no_throw_def Let_def strip_exception_calls_def
      split: option.splits prod.splits)

lemma decode_loop_no_throw:
  "decode_loop fuel (no_throw sink) buf num_bytes event_pos j =
     (case decode_loop fuel sink buf num_bytes event_pos j of
        (its, st, j') \<Rightarrow>
          (map (\<lambda>it. it\<lparr>calls := strip_exception_calls (calls it)\<rparr>) its, st, j'))"
proof (induction fuel arbitrary: num_bytes event_pos j)
  case 0
  show ?case by simp
next
  case (Suc f)
  show ?case
    by (simp add: dispatch_event_no_throw Suc.IH split: option.splits prod.splits)
qed

lemma observe_no_throw:
  "android_os_fileobserver_observe fuel (no_throw sink) fd script event_buf j =
     (case android_os_fileobserver_observe fuel sink fd script event_buf j of
        (cs, st, j') \<Rightarrow> (strip_exception_calls cs, st, j'))"
proof (induction script arbitrary: event_buf j)
  case Nil
  show ?case by (simp add: strip_exception_calls_def)
next
  case (Cons r rs)
  have s1: "strip_exception_calls (Sys_read fd # cs) = Sys_read fd # strip_exception_calls cs" for cs
    by (simp add: strip_exception_calls_def)
  have s2: "strip_exception_calls [ALOGE_short_event] = [ALOGE_short_event]"
    by (simp add: strip_exception_calls_def)
  show ?case
    by (simp add: Let_def decode_loop_no_throw Cons.IH s1 s2 strip_exception_calls_append
        strip_exception_calls_concat split: prod.splits status.splits)
qed

lemma dispatch_event_throw_calls:
  assumes "dispatch_event sink buf event_pos j = Some (cs, sz, j')"
    and "Jni_onEvent w m p \<in> set cs" and "fst (sink j w m p)"
  shows "\<exists>pre post. cs = pre @ [Jni_onEvent w m p, Jni_ExceptionDescribe, Jni_ExceptionClear] @ post"
proof -
  let ?ev = "event_at buf (nat event_pos)"
  obtain path where ep: "event_path buf (nat event_pos) = Some path"
    using dispatch_event_SomeD [OF assms(1)] by blast
  obtain threw j1 where sk: "sink j (e_wd ?ev) (e_mask ?ev) path = (threw, j1)"
    by (cases "sink j (e_wd ?ev) (e_mask ?ev) path") auto
  let ?pre = "case path of None \<Rightarrow> [] | Some s \<Rightarrow> [Jni_NewStringUTF s]"
  let ?post = "case path of None \<Rightarrow> [] | Some s \<Rightarrow> [Jni_DeleteLocalRef s]"
  have cs: "cs = ?pre @ [Jni_onEvent (e_wd ?ev) (e_mask ?ev) path] @
      (if threw then [Jni_ExceptionDescribe, Jni_ExceptionClear] else []) @ ?post"
    using assms(1) ep sk
    by (simp add: dispatch_event_def Let_def split: if_splits)
  have "Jni_onEvent w m p = Jni_onEvent (e_wd ?ev) (e_mask ?ev) path"
    using assms(2) unfolding cs by (auto split: option.splits if_splits)
  then have eq: "w = e_wd ?ev" "m = e_mask ?ev" "p = path" by simp_all
  then have "threw" using assms(3) sk by simp
  then have "cs = ?pre @ [Jni_onEvent w m p, Jni_ExceptionDescribe, Jni_ExceptionClear] @ ?post"
    using cs eq by simp
  then show ?thesis by blast
qed

lemma dispatch_event_eval:
  assumes "0 \<le> event_pos" "event_pos + sizeof_event \<le> int (length buf)"
    and "event_at buf (nat event_pos) = ev" and "event_path buf (nat event_pos) = Some path"
    and "sink j (e_wd ev) (e_mask ev) path = (threw, j1)"
  shows "dispatch_event sink buf event_pos j =
     Some ((case path of None \<Rightarrow> [] | Some s \<Rightarrow> [Jni_NewStringUTF s]) @
           [Jni_onEvent (e_wd ev) (e_mask ev) path] @
           (if threw then [Jni_ExceptionDescribe, Jni_ExceptionClear] else []) @
           (case path of None \<Rightarrow> [] | Some s \<Rightarrow> [Jni_DeleteLocalRef s]),
           sint (16 + e_len ev), j1)"
  using assms by (simp add: dispatch_event_def Let_def)

lemma observe_events_step:
  assumes "sizeof_event \<le> read_ret r"
    and "decode_loop fuel sink (read_into event_buf r) (read_ret r) 0 j = (its, Finished, j1)"
    and "android_os_fileobserver_observe fuel sink fd rs (read_into event_buf r) j1 = (cs, st, j2)"
  shows "android_os_fileobserver_observe fuel sink fd (r # rs) event_buf j =
           (Sys_read fd # concat (map calls its) @ cs, st, j2)"
  using assms by (simp add: Let_def)

lemma observe_records:
  assumes wf: "\<forall>r \<in> set rs. well_formed_record r"
    and len: "length (concat rs) \<le> sizeof_event_buf"
    and fuel: "length rs \<le> fuel" and ne: "rs \<noteq> []"
  shows "\<exists>its j1.
           decode_loop fuel sink (read_into event_buf (ReadBytes (concat rs) e))
             (read_ret (ReadBytes (concat rs) e)) 0 j = (its, Finished, j1) \<and>
           length its = length rs \<and>
           events_of (concat (map calls its)) = map spec_decoded_event rs \<and>
           android_os_fileobserver_observe fuel sink fd (ReadBytes (concat rs) e # script)
             event_buf j =
             (case android_os_fileobserver_observe fuel sink fd script
                     (read_into event_buf (ReadBytes (concat rs) e)) j1 of
                (cs, st, j2) \<Rightarrow> (Sys_read fd # concat (map calls its) @ cs, st, j2))"
proof -
  let ?r = "ReadBytes (concat rs) e"
  let ?post = "drop (length (concat rs)) event_buf"
  have l512: "length (concat rs) \<le> 512" using len by (simp add: sizeof_event_buf_def)
  have buf: "read_into event_buf ?r = [] @ concat rs @ ?post"
    using l512 by (simp add: sizeof_event_buf_def Let_def)
  have ret: "read_ret ?r = int (length (concat rs))"
    using l512 by (simp add: sizeof_event_buf_def)
  obtain r0 rs0 where rs: "rs = r0 # rs0" using ne by (cases rs) auto
  then have "well_formed_record r0" using wf by simp
  then have "16 \<le> length r0" by (simp add: well_formed_record_def)
  then have ge: "sizeof_event \<le> read_ret ?r"
    unfolding ret using rs by (simp add: sizeof_event_def)
  obtain its st j1 where
    d: "decode_loop fuel sink ([] @ concat rs @ ?post) (int (length (concat rs)))
          (int (length ([] :: byte list))) j = (its, st, j1)"
    by (cases "decode_loop fuel sink ([] @ concat rs @ ?post) (int (length (concat rs)))
          (int (length ([] :: byte list))) j") auto
  have tot: "length ([] :: byte list) + length (concat rs) < 2 ^ 31" using l512 by simp
  from decode_loop_records [OF wf l512 fuel tot, where sink = sink and post = ?post and j = j] d
  have c: "st = Finished \<and> map cursor its = record_offsets 0 rs \<and>
      events_of (concat (map calls its)) = map spec_decoded_event rs"
    by simp
  then have "length (map cursor its) = length rs" by (simp add: length_record_offsets)
  then have li: "length its = length rs" by simp
  have d': "decode_loop fuel sink (read_into event_buf ?r) (read_ret ?r) 0 j = (its, Finished, j1)"
    unfolding buf ret using d c by simp
  obtain cs st2 j2 where
    o: "android_os_fileobserver_observe fuel sink fd script (read_into event_buf ?r) j1 = (cs, st2, j2)"
    by (cases "android_os_fileobserver_observe fuel sink fd script (read_into event_buf ?r) j1") auto
  have "android_os_fileobserver_observe fuel sink fd (?r # script) event_buf j =
      (Sys_read fd # concat (map calls its) @ cs, st2, j2)"
    by (rule observe_events_step [OF ge d' o])
  then have "android_os_fileobserver_observe fuel sink fd (?r # script) event_buf j =
      (case android_os_fileobserver_observe fuel sink fd script (read_into event_buf ?r) j1 of
         (cs, st, j2) \<Rightarrow> (Sys_read fd # concat (map calls its) @ cs, st, j2))"
    unfolding o by simp
  with d' li c show ?thesis by blast
qed

subsection \<open>The outer loop of observe\<close>

text \<open>
  C4. Reads that fail with \<^verbatim>\<open>EINTR\<close> are retried, however many follow one another: each
  such pass contributes the read call and nothing else (no event, no log entry), and the
  loop goes on with the next read, the buffer and the Java side as they were. A read that
  fails with any other error is not retried: the function logs and returns after this one
  read, whatever reads would follow.
\<close>

theorem interrupted_read_retried:
  "android_os_fileobserver_observe fuel sink fd (replicate n (ReadFail EINTR) @ rs) event_buf j =
     (case android_os_fileobserver_observe fuel sink fd rs event_buf j of
        (cs, st, j') \<Rightarrow> (replicate n (Sys_read fd) @ cs, st, j')) \<and>
   (e \<noteq> EINTR \<longrightarrow>
      android_os_fileobserver_observe fuel sink fd (ReadFail e # rs) event_buf j =
        ([Sys_read fd, ALOGE_short_event], Returned, j))"
proof
  show "android_os_fileobserver_observe fuel sink fd (replicate n (ReadFail EINTR) @ rs) event_buf j =
     (case android_os_fileobserver_observe fuel sink fd rs event_buf j of
        (cs, st, j') \<Rightarrow> (replicate n (Sys_read fd) @ cs, st, j'))"
  proof (induction n)
    case 0
    show ?case by (simp split: prod.split)
  next
    case (Suc n)
    then show ?case by (simp add: sizeof_event_def split: prod.split)
  qed
next
  show "e \<noteq> EINTR \<longrightarrow>
      android_os_fileobserver_observe fuel sink fd (ReadFail e # rs) event_buf j =
        ([Sys_read fd, ALOGE_short_event], Returned, j)"
    by (simp add: sizeof_event_def)
qed

theorem interrupted_read_retried_witness:
  "android_os_fileobserver_observe 4 counting_sink 3
     [ReadFail EINTR, ReadFail EINTR, ReadFail 9] zero_buf 0 =
     ([Sys_read 3, Sys_read 3, Sys_read 3, ALOGE_short_event], Returned, 0) \<and>
   (9 \<noteq> EINTR \<and>
    android_os_fileobserver_observe 4 counting_sink 3 [ReadFail 9, ReadFail EINTR] zero_buf 0 =
      ([Sys_read 3, ALOGE_short_event], Returned, 0))"
proof -
  have ne: "9 \<noteq> EINTR" by (simp add: EINTR_def)
  have r: "replicate 2 (ReadFail EINTR) @ [ReadFail 9] = [ReadFail EINTR, ReadFail EINTR, ReadFail 9]"
    by (simp add: numeral_2_eq_2)
  have a: "android_os_fileobserver_observe 4 counting_sink 3 [ReadFail 9] zero_buf 0 =
      ([Sys_read 3, ALOGE_short_event], Returned, 0)"
    using interrupted_read_retried [of 4 counting_sink 3 0 "[]" zero_buf 0 9, THEN conjunct2] ne
    by simp
  have b: "android_os_fileobserver_observe 4 counting_sink 3
     [ReadFail EINTR, ReadFail EINTR, ReadFail 9] zero_buf 0 =
     ([Sys_read 3, Sys_read 3, Sys_read 3, ALOGE_short_event], Returned, 0)"
    using interrupted_read_retried [of 4 counting_sink 3 2 "[ReadFail 9]" zero_buf 0 9,
        THEN conjunct1]
    unfolding r a by (simp add: numeral_2_eq_2)
  have c: "android_os_fileobserver_observe 4 counting_sink 3 [ReadFail 9, ReadFail EINTR] zero_buf 0 =
      ([Sys_read 3, ALOGE_short_event], Returned, 0)"
    using interrupted_read_retried [of 4 counting_sink 3 0 "[ReadFail EINTR]" zero_buf 0 9,
        THEN conjunct2] ne
    by simp
  show ?thesis using ne b c by simp
qed




subsection \<open>Registration\<close>

text \<open>
  C8. For a negative channel value \<^verbatim>\<open>release\<close> makes no call at all: \<^verbatim>\<open>close\<close> is not
  invoked, and as the function has no state of its own nothing changes, however often it
  is called.
\<close>

theorem release_negative_fd: "sint fd < 0 \<Longrightarrow> release fd = []"
  by (simp add: release_def)

theorem release_negative_fd_witness: "sint (- 1 :: jint) < 0 \<and> release (- 1) = []"
  using release_negative_fd [of "- 1"] by simp

text \<open>
  C9. For a negative channel value \<^verbatim>\<open>startWatching\<close> returns -1 and makes no call:
  neither \<^verbatim>\<open>inotify_add_watch\<close> nor the read of the path string. Every call it makes,
  and every result other than -1, comes with a non-negative channel value, and such a
  result comes with the call of \<^verbatim>\<open>inotify_add_watch\<close>.
\<close>

theorem startWatching_negative_fd:
  "(sint fd < 0 \<longrightarrow>
      android_os_fileobserver_startWatching fd pathString mask_arg r = ([], - 1)) \<and>
   (\<forall>c \<in> set (fst (android_os_fileobserver_startWatching fd pathString mask_arg r)).
      0 \<le> sint fd) \<and>
   (snd (android_os_fileobserver_startWatching fd pathString mask_arg r) \<noteq> - 1 \<longrightarrow>
      0 \<le> sint fd \<and>
      Sys_inotify_add_watch fd pathString mask_arg
        \<in> set (fst (android_os_fileobserver_startWatching fd pathString mask_arg r)))"
  by (simp add: android_os_fileobserver_startWatching_def)

theorem startWatching_negative_fd_witness:
  "sint (- 5 :: jint) < 0 \<and>
   android_os_fileobserver_startWatching (- 5) [47, 116, 109, 112] 256 7 = ([], - 1) \<and>
   snd (android_os_fileobserver_startWatching 3 [47, 116, 109, 112] 256 7) \<noteq> - 1 \<and>
   0 \<le> sint (3 :: jint) \<and>
   Sys_inotify_add_watch 3 [47, 116, 109, 112] 256
     \<in> set (fst (android_os_fileobserver_startWatching 3 [47, 116, 109, 112] 256 7))"
  using startWatching_negative_fd [of "- 5" "[47, 116, 109, 112]" 256 7]
    startWatching_negative_fd [of 3 "[47, 116, 109, 112]" 256 7]
  by (simp add: android_os_fileobserver_startWatching_def)

text \<open>
  C7. \<^verbatim>\<open>stopWatching\<close> makes one call, \<^verbatim>\<open>inotify_rm_watch\<close> with the channel and the
  handle as given, for every channel and handle, and returns nothing, so no error is ever
  reported to the caller. When the handle is not registered on the channel the table of
  the OS is the same afterwards (a silent no-op), and in every case all other entries of
  the table are as before. The function shares no variable with \<^verbatim>\<open>observe\<close>.
\<close>

theorem stopWatching_unknown_handle:
  "android_os_fileobserver_stopWatching fd wfd = [Sys_inotify_rm_watch fd wfd] \<and>
   ((fd, wfd) \<notin> dom t \<longrightarrow>
      table_after_removals (android_os_fileobserver_stopWatching fd wfd) t = t) \<and>
   (\<forall>k. k \<noteq> (fd, wfd) \<longrightarrow>
      table_after_removals (android_os_fileobserver_stopWatching fd wfd) t k = t k)"
  by (simp add: android_os_fileobserver_stopWatching_def inotify_rm_watch_def)

theorem stopWatching_unknown_handle_witness:
  "(3, 7) \<notin> dom [(3 :: jint, 1 :: uint32) \<mapsto> ([47, 120 :: byte], 256 :: jint)] \<and>
   table_after_removals (android_os_fileobserver_stopWatching 3 7)
     [(3, 1) \<mapsto> ([47, 120], 256)] = [(3, 1) \<mapsto> ([47, 120], 256)]"
proof -
  have h: "(3, 7) \<notin> dom [(3 :: jint, 1 :: uint32) \<mapsto> ([47, 120 :: byte], 256 :: jint)]"
    by simp
  from stopWatching_unknown_handle [of 3 7 "[(3, 1) \<mapsto> ([47, 120], 256)]",
      THEN conjunct2, THEN conjunct1] h
  have "table_after_removals (android_os_fileobserver_stopWatching 3 7)
     [(3, 1) \<mapsto> ([47, 120], 256)] = [(3, 1) \<mapsto> ([47, 120], 256)]"
    by (rule mp)
  with h show ?thesis by (rule conjI)
qed

subsection \<open>Decoding one record\<close>

text \<open>
  C3. With the header inside \<^verbatim>\<open>event_buf\<close>: when \<^verbatim>\<open>len\<close> is 0 the pass hands exactly one
  event to the sink, with no name. When \<^verbatim>\<open>len\<close> is \<open>k > 0\<close> and the first NUL of the name
  field is at position \<open>p < k\<close>, inside the buffer, the pass hands exactly one event to the
  sink, named by the first \<open>p\<close> bytes of the field, a string of length \<open>p\<close>.
\<close>

theorem name_of_dispatched_event:
  fixes buf :: "byte list" and event_pos :: int
  assumes pos: "0 \<le> event_pos" "event_pos + sizeof_event \<le> int (length buf)"
    and ev: "ev = event_at buf (nat event_pos)"
    and name: "name = take (unat (e_len ev)) (drop (nat event_pos + 16) buf)"
  shows "(e_len ev = 0 \<longrightarrow>
            map_option (events_of \<circ> fst) (dispatch_event sink buf event_pos j) =
              Some [(e_wd ev, e_mask ev, None)]) \<and>
         (\<forall>p. p < unat (e_len ev) \<and> nat event_pos + 16 + p < length buf \<and>
               name ! p = 0 \<and> (\<forall>i<p. name ! i \<noteq> 0) \<longrightarrow>
            map_option (events_of \<circ> fst) (dispatch_event sink buf event_pos j) =
              Some [(e_wd ev, e_mask ev, Some (take p name))] \<and>
            length (take p name) = p)"
proof (intro conjI allI impI)
  assume "e_len ev = 0"
  then show "map_option (events_of \<circ> fst) (dispatch_event sink buf event_pos j) =
      Some [(e_wd ev, e_mask ev, None)]"
    using pos ev
    by (simp add: dispatch_event_def event_path_def Let_def split: prod.split)
next
  fix p
  let ?off = "nat event_pos + 16"
  let ?k = "unat (e_len ev)"
  assume a: "p < ?k \<and> ?off + p < length buf \<and> name ! p = 0 \<and> (\<forall>i<p. name ! i \<noteq> 0)"
  have in_buf: "?off + p < length buf" using a by simp
  have off_le: "?off \<le> length buf" using a by simp
  have nth_name: "name ! i = buf ! (?off + i)" if "i \<le> p" for i
  proof -
    have "i < ?k" using that a by simp
    then show ?thesis using off_le name by simp
  qed
  have z: "buf ! (?off + p) = 0" using a nth_name [of p] by simp
  have nz: "\<forall>i<p. buf ! (?off + i) \<noteq> 0" using a nth_name by simp
  have cs: "c_string buf ?off = Some (take p (drop ?off buf))"
    using in_buf z nz by (rule c_string_first_nul)
  have tk: "take p name = take p (drop ?off buf)"
    using a name by (simp add: min_def)
  have "?k \<noteq> 0" using a by simp
  then have pos_len: "0 < e_len ev" by (simp add: word_greater_zero_iff unat_eq_0)
  show "map_option (events_of \<circ> fst) (dispatch_event sink buf event_pos j) =
      Some [(e_wd ev, e_mask ev, Some (take p name))]"
    using pos ev pos_len cs tk
    by (simp add: dispatch_event_def event_path_def Let_def split: prod.split)
  have "p < length buf - ?off" using in_buf by linarith
  then show "length (take p name) = p"
    using a name by (simp add: min_def)
qed

theorem name_of_dispatched_event_witness:
  "map_option (events_of \<circ> fst)
     (dispatch_event counting_sink (read_into zero_buf (ReadBytes record_delete 0)) 0 0) =
     Some [(1, 512, None)] \<and>
   map_option (events_of \<circ> fst)
     (dispatch_event counting_sink (read_into zero_buf (ReadBytes record_create 0)) 0 0) =
     Some [(1, 256, Some [97, 46, 116, 120, 116])]"
proof -
  define b where "b = read_into zero_buf (ReadBytes record_delete 0)"
  define c where "c = read_into zero_buf (ReadBytes record_create 0)"
  have lb: "length b = 512"
    unfolding b_def by (simp add: zero_buf_def record_delete_def sizeof_event_buf_def Let_def)
  have lc: "length c = 512"
    unfolding c_def by (simp add: zero_buf_def record_create_def sizeof_event_buf_def Let_def)
  have eb: "event_at b 0 = \<lparr>e_wd = 1, e_mask = 512, e_cookie = 0, e_len = 0\<rparr>"
    unfolding b_def
    by (simp add: zero_buf_def record_delete_def sizeof_event_buf_def Let_def event_at_def
        field32_def le32_def)
  have ec: "event_at c 0 = \<lparr>e_wd = 1, e_mask = 256, e_cookie = 0, e_len = 8\<rparr>"
    unfolding c_def
    by (simp add: zero_buf_def record_create_def sizeof_event_buf_def Let_def event_at_def
        field32_def le32_def)
  have nc: "take 8 (drop 16 c) = [97, 46, 116, 120, 116, 0, 0, 0]"
    unfolding c_def
    by (simp add: zero_buf_def record_create_def sizeof_event_buf_def Let_def)
  have p1: "(0::int) \<le> 0" by simp
  have p2b: "0 + sizeof_event \<le> int (length b)" using lb by (simp add: sizeof_event_def)
  have p2c: "0 + sizeof_event \<le> int (length c)" using lc by (simp add: sizeof_event_def)
  have evb: "\<lparr>e_wd = 1, e_mask = 512, e_cookie = 0, e_len = 0\<rparr> = event_at b (nat 0)"
    using eb by simp
  have evc: "\<lparr>e_wd = 1, e_mask = 256, e_cookie = 0, e_len = 8\<rparr> = event_at c (nat 0)"
    using ec by simp
  have nmc: "[97, 46, 116, 120, 116, 0, 0, 0] =
      take (unat (e_len \<lparr>e_wd = 1, e_mask = 256, e_cookie = 0, e_len = (8 :: uint32)\<rparr>))
        (drop (nat 0 + 16) c)"
    using nc by simp
  have nz: "\<forall>i<5. [97, 46, 116, 120, 116, 0, 0, 0 :: byte] ! i \<noteq> 0"
  proof (intro allI impI)
    fix i :: nat
    assume "i < 5"
    then have "i = 0 \<or> i = 1 \<or> i = 2 \<or> i = 3 \<or> i = 4" by linarith
    then show "[97, 46, 116, 120, 116, 0, 0, 0 :: byte] ! i \<noteq> 0" by auto
  qed
  have r1: "map_option (events_of \<circ> fst) (dispatch_event counting_sink b 0 0) =
      Some [(1, 512, None)]"
    using name_of_dispatched_event [OF p1 p2b evb refl, of counting_sink 0] by simp
  have r2: "map_option (events_of \<circ> fst) (dispatch_event counting_sink c 0 0) =
      Some [(1, 256, Some [97, 46, 116, 120, 116])]"
    using name_of_dispatched_event [OF p1 p2c evc nmc, of counting_sink 0, THEN conjunct2,
        THEN spec, of 5] lc nz
    by simp
  show ?thesis unfolding b_def [symmetric] c_def [symmetric] using r1 r2 by simp
qed

subsection \<open>The inner loop on packed records\<close>

text \<open>
  C1. A read returns \<open>N\<close> well-formed records packed back to back, at most 512 bytes.
  Given fuel for \<open>N\<close> passes the inner loop finishes after exactly \<open>N\<close> passes; the cursor of
  each pass is the start of the corresponding record, so that it advances by 16 plus the
  length of the name field each time; and the events handed to the sink are the decoded
  events of the records, in the order of the records.
\<close>

theorem packed_records_dispatched_in_order:
  assumes "\<forall>r \<in> set rs. well_formed_record r"
    and "length (concat rs) \<le> sizeof_event_buf"
    and "length rs \<le> fuel"
  shows "case decode_loop fuel sink (read_into event_buf (ReadBytes (concat rs) e))
                (read_ret (ReadBytes (concat rs) e)) 0 j of
           (its, st, j') \<Rightarrow>
             st = Finished \<and> length its = length rs \<and>
             map cursor its = record_offsets 0 rs \<and>
             events_of (concat (map calls its)) = map spec_decoded_event rs"
proof -
  let ?post = "drop (length (concat rs)) event_buf"
  have len: "length (concat rs) \<le> 512" using assms(2) by (simp add: sizeof_event_buf_def)
  have buf: "read_into event_buf (ReadBytes (concat rs) e) = [] @ concat rs @ ?post"
    using len by (simp add: sizeof_event_buf_def Let_def)
  have ret: "read_ret (ReadBytes (concat rs) e) = int (length (concat rs))"
    using len by (simp add: sizeof_event_buf_def)
  obtain its st j' where
    r: "decode_loop fuel sink ([] @ concat rs @ ?post) (int (length (concat rs)))
          (int (length ([] :: byte list))) j = (its, st, j')"
    by (cases "decode_loop fuel sink ([] @ concat rs @ ?post) (int (length (concat rs)))
          (int (length ([] :: byte list))) j") auto
  have tot: "length ([] :: byte list) + length (concat rs) < 2 ^ 31" using len by simp
  from decode_loop_records [OF assms(1) len assms(3) tot,
      where sink = sink and post = ?post and j = j] r
  have c: "st = Finished \<and> map cursor its = record_offsets 0 rs \<and>
      events_of (concat (map calls its)) = map spec_decoded_event rs"
    by simp
  then have "length (map cursor its) = length rs" by (simp add: length_record_offsets)
  then have "length its = length rs" by simp
  with c r show ?thesis unfolding buf ret by simp
qed

theorem packed_records_dispatched_in_order_witness:
  "well_formed_record record_create \<and> well_formed_record record_delete \<and>
   length (concat [record_create, record_delete]) \<le> sizeof_event_buf \<and>
   (case decode_loop 2 counting_sink
           (read_into zero_buf (ReadBytes (concat [record_create, record_delete]) 0))
           (read_ret (ReadBytes (concat [record_create, record_delete]) 0)) 0 0 of
      (its, st, j') \<Rightarrow>
        st = Finished \<and> length its = 2 \<and> map cursor its = [0, 24] \<and>
        events_of (concat (map calls its)) =
          [(1, 256, Some [97, 46, 116, 120, 116]), (1, 512, None)])"
proof -
  have f1: "field32 record_create 0 = 1" "field32 record_create 4 = 256"
    "field32 record_create 12 = 8"
    by (simp_all add: record_create_def field32_def le32_def)
  have f2: "field32 record_delete 0 = 1" "field32 record_delete 4 = 512"
    "field32 record_delete 12 = 0"
    by (simp_all add: record_delete_def field32_def le32_def)
  have w1: "well_formed_record record_create"
    by (simp add: well_formed_record_def f1) (simp add: record_create_def)
  have w2: "well_formed_record record_delete"
    by (simp add: well_formed_record_def f2) (simp add: record_delete_def)
  have h1: "\<forall>r \<in> set [record_create, record_delete]. well_formed_record r"
    using w1 w2 by simp
  have h2: "length (concat [record_create, record_delete]) \<le> sizeof_event_buf"
    by (simp add: record_create_def record_delete_def sizeof_event_buf_def)
  have h3: "length [record_create, record_delete] \<le> 2" by simp
  have e1: "spec_decoded_event record_create = (1, 256, Some [97, 46, 116, 120, 116])"
    by (simp add: spec_decoded_event_def f1) (simp add: record_create_def)
  have e2: "spec_decoded_event record_delete = (1, 512, None)"
    by (simp add: spec_decoded_event_def f2)
  have o: "record_offsets 0 [record_create, record_delete] = [0, 24]"
    by (simp add: record_create_def)
  have m: "map spec_decoded_event [record_create, record_delete] =
      [(1, 256, Some [97, 46, 116, 120, 116]), (1, 512, None)]"
    using e1 e2 by simp
  have l: "length [record_create, record_delete] = 2" by simp
  from packed_records_dispatched_in_order [OF h1 h2 h3, of counting_sink zero_buf 0 0]
  have "case decode_loop 2 counting_sink
           (read_into zero_buf (ReadBytes (concat [record_create, record_delete]) 0))
           (read_ret (ReadBytes (concat [record_create, record_delete]) 0)) 0 0 of
      (its, st, j') \<Rightarrow>
        st = Finished \<and> length its = 2 \<and> map cursor its = [0, 24] \<and>
        events_of (concat (map calls its)) =
          [(1, 256, Some [97, 46, 116, 120, 116]), (1, 512, None)]"
    unfolding o m l .
  with w1 w2 h2 show ?thesis by blast
qed

text \<open>
  C2, as the code has it. The cursor is at a position where at least 16 bytes remain and
  the header there declares more bytes (16 + \<^verbatim>\<open>len\<close>) than remain, the declared end of the
  record, cursor + 16 + \<^verbatim>\<open>len\<close>, being below \<open>2\<^sup>3\<^sup>1\<close>. The loop makes no check of this:
  provided a NUL follows the name offset inside \<^verbatim>\<open>event_buf\<close>, it hands one event for that
  header to the sink, named by the bytes up to that NUL, and only then stops, with no
  error logged.
\<close>

theorem truncated_record_still_dispatched:
  assumes "sizeof_event \<le> num_bytes" and "0 \<le> event_pos"
    and "event_pos + num_bytes \<le> int (length buf)"
    and "ev = event_at buf (nat event_pos)"
    and "num_bytes < 16 + int (unat (e_len ev))"
    and "event_pos + 16 + int (unat (e_len ev)) < 2 ^ 31"
    and "c_string buf (nat event_pos + 16) = Some name"
  shows "case decode_loop (Suc fuel) sink buf num_bytes event_pos j of
           (its, st, j') \<Rightarrow>
             st = Finished \<and> map cursor its = [event_pos] \<and>
             events_of (concat (map calls its)) = [(e_wd ev, e_mask ev, Some name)] \<and>
             ALOGE_short_event \<notin> set (concat (map calls its))"
proof -
  have nb16: "16 \<le> num_bytes" using assms(1) by (simp add: sizeof_event_def)
  then have "unat (e_len ev) \<noteq> 0" using assms(5) by linarith
  then have pos_len: "0 < e_len ev" by (simp add: word_greater_zero_iff unat_eq_0)
  have ep: "event_path buf (nat event_pos) = Some (Some name)"
    using pos_len assms(4,7) by (simp add: event_path_def)
  have b: "event_pos + sizeof_event \<le> int (length buf)" using assms(1,3) by simp
  from dispatch_event_SomeI [OF assms(2) b ep, of sink j]
  obtain cs where d: "dispatch_event sink buf event_pos j =
      Some (cs, sint (16 + e_len ev), snd (sink j (e_wd ev) (e_mask ev) (Some name)))"
    using assms(4) by auto
  define k where "k = int (unat (e_len ev))"
  have k0: "0 \<le> k" unfolding k_def by simp
  have k1: "event_pos + 16 + k < 2147483648" using assms(6) unfolding k_def by simp
  have k2: "num_bytes < 16 + k" using assms(5) unfolding k_def by simp
  have "int (unat (e_len ev)) < 2147483632" using k1 assms(2) unfolding k_def by linarith
  then have "unat (e_len ev) < 2147483632" by linarith
  then have "unat (e_len ev) < 2 ^ 31 - 16" by simp
  then have "sint (16 + e_len ev) = 16 + int (unat (e_len ev))"
    by (rule event_size_no_wrap)
  then have sz: "sint (16 + e_len ev) = 16 + k" unfolding k_def .
  have i1: "in_int_range (num_bytes - sint (16 + e_len ev))"
    unfolding sz in_int_range_def using k0 k1 k2 assms(2) nb16 by simp
  have i2: "in_int_range (event_pos + sint (16 + e_len ev))"
    unfolding sz in_int_range_def using k0 k1 assms(2) by simp
  have "num_bytes - sint (16 + e_len ev) < sizeof_event"
    unfolding sz using k2 by (simp add: sizeof_event_def)
  then have rest: "decode_loop fuel sink buf (num_bytes - sint (16 + e_len ev))
      (event_pos + sint (16 + e_len ev)) (snd (sink j (e_wd ev) (e_mask ev) (Some name))) =
      ([], Finished, snd (sink j (e_wd ev) (e_mask ev) (Some name)))"
    by (rule decode_loop_done)
  have ev1: "events_of cs = [(e_wd ev, e_mask ev, Some name)]"
    using dispatch_event_SomeD [OF d] ep assms(4) by simp
  have nolog: "ALOGE_short_event \<notin> set cs"
    using dispatch_event_no_log [OF d] .
  show ?thesis
    unfolding decode_loop_step [OF assms(1) d i1 i2 rest] using ev1 nolog by simp
qed

theorem truncated_record_still_dispatched_witness:
  "sizeof_event \<le> 16 \<and>
   16 < 16 + int (unat (e_len (event_at (read_into stale_buf (ReadBytes header_len8 0)) 0))) \<and>
   0 + 16 + int (unat (e_len (event_at (read_into stale_buf (ReadBytes header_len8 0)) 0)))
     < 2 ^ 31 \<and>
   c_string (read_into stale_buf (ReadBytes header_len8 0)) 16 = Some [98] \<and>
   (case decode_loop (Suc 3) counting_sink (read_into stale_buf (ReadBytes header_len8 0)) 16 0 0 of
      (its, st, j') \<Rightarrow>
        st = Finished \<and> map cursor its = [0] \<and>
        events_of (concat (map calls its)) = [(1, 256, Some [98])] \<and>
        ALOGE_short_event \<notin> set (concat (map calls its)))"
proof -
  define b where "b = read_into stale_buf (ReadBytes header_len8 0)"
  have len: "length b = 512"
    unfolding b_def by (simp add: stale_buf_def header_len8_def sizeof_event_buf_def Let_def)
  have ea: "event_at b 0 = \<lparr>e_wd = 1, e_mask = 256, e_cookie = 0, e_len = 8\<rparr>"
    unfolding b_def
    by (simp add: stale_buf_def header_len8_def sizeof_event_buf_def Let_def event_at_def
        field32_def le32_def)
  have cs: "c_string b 16 = Some [98]"
    unfolding b_def
    by (simp add: stale_buf_def header_len8_def sizeof_event_buf_def Let_def c_string_def)
  have h1: "sizeof_event \<le> 16" by (simp add: sizeof_event_def)
  have h2: "(0::int) \<le> 0" by simp
  have h3: "0 + 16 \<le> int (length b)" using len by simp
  have h4: "\<lparr>e_wd = 1, e_mask = 256, e_cookie = 0, e_len = 8\<rparr> = event_at b (nat 0)"
    using ea by simp
  have h5: "16 < 16 + int (unat (e_len \<lparr>e_wd = 1, e_mask = 256, e_cookie = 0, e_len = (8 :: uint32)\<rparr>))"
    by simp
  have h6: "0 + 16 + int (unat (e_len \<lparr>e_wd = 1, e_mask = 256, e_cookie = 0, e_len = (8 :: uint32)\<rparr>))
      < 2 ^ 31"
    by simp
  have h7: "c_string b (nat 0 + 16) = Some [98]" using cs by simp
  from truncated_record_still_dispatched [OF h1 h2 h3 h4 h5 h6 h7, of 3 counting_sink 0]
  have "case decode_loop (Suc 3) counting_sink b 16 0 0 of
      (its, st, j') \<Rightarrow>
        st = Finished \<and> map cursor its = [0] \<and>
        events_of (concat (map calls its)) = [(1, 256, Some [98])] \<and>
        ALOGE_short_event \<notin> set (concat (map calls its))"
    by simp
  then show ?thesis
    unfolding b_def [symmetric] using h1 ea cs by simp
qed

text \<open>
  C2 as stated fails: a read returns a header alone that declares 8 bytes of name. The
  record (24 bytes) exceeds the 16 bytes remaining, yet an event is dispatched, its name
  \<^verbatim>\<open>b\<close> taken from bytes of \<^verbatim>\<open>event_buf\<close> that the read did not write.
\<close>

theorem truncated_record_counterexample:
  "sizeof_event \<le> read_ret (ReadBytes header_len8 0) \<and>
   read_ret (ReadBytes header_len8 0)
     < 16 + int (unat (e_len (event_at (read_into stale_buf (ReadBytes header_len8 0)) 0))) \<and>
   decode_loop 1 counting_sink (read_into stale_buf (ReadBytes header_len8 0))
     (read_ret (ReadBytes header_len8 0)) 0 0 =
     ([\<lparr>cursor = 0,
        calls = [Jni_NewStringUTF [98], Jni_onEvent 1 256 (Some [98]), Jni_DeleteLocalRef [98]]\<rparr>],
      Finished, 1)"
proof -
  define b where "b = read_into stale_buf (ReadBytes header_len8 0)"
  have r: "read_ret (ReadBytes header_len8 0) = 16"
    by (simp add: header_len8_def sizeof_event_buf_def)
  have len: "length b = 512"
    unfolding b_def by (simp add: stale_buf_def header_len8_def sizeof_event_buf_def Let_def)
  have ea: "event_at b 0 = \<lparr>e_wd = 1, e_mask = 256, e_cookie = 0, e_len = 8\<rparr>"
    unfolding b_def
    by (simp add: stale_buf_def header_len8_def sizeof_event_buf_def Let_def event_at_def
        field32_def le32_def)
  have cs: "c_string b 16 = Some [98]"
    unfolding b_def
    by (simp add: stale_buf_def header_len8_def sizeof_event_buf_def Let_def c_string_def)
  have d: "dispatch_event counting_sink b 0 0 =
     Some ([Jni_NewStringUTF [98], Jni_onEvent 1 256 (Some [98]), Jni_DeleteLocalRef [98]], 24, 1)"
    unfolding dispatch_event_def event_path_def
    using len ea cs by (simp add: sizeof_event_def counting_sink_def Let_def)
  have rest: "decode_loop 0 counting_sink b (16 - 24) (0 + 24) 1 = ([], Finished, 1)"
    by (rule decode_loop_done) (simp add: sizeof_event_def)
  have i1: "in_int_range (16 - 24)" and i2: "in_int_range (0 + 24)"
    by (simp_all add: in_int_range_def)
  have s: "sizeof_event \<le> 16" by (simp add: sizeof_event_def)
  have "decode_loop 1 counting_sink b 16 0 0 =
     ([\<lparr>cursor = 0,
        calls = [Jni_NewStringUTF [98], Jni_onEvent 1 256 (Some [98]), Jni_DeleteLocalRef [98]]\<rparr>],
      Finished, 1)"
    using decode_loop_step [OF s d i1 i2 rest] by simp
  then show ?thesis
    unfolding b_def [symmetric] r using ea s by simp
qed

text \<open>
  C10, as the code has it. If every header the loop reads declares a \<^verbatim>\<open>len\<close> below
  \<open>2\<^sup>3\<^sup>1 - 16\<close>, then each pass moves the cursor on by at least 16, at most
  \<open>num_bytes div 16\<close> events are dispatched, and fuel for that many passes is never used
  up: the loop finishes, or meets undefined behaviour (a name with no NUL before the end
  of \<^verbatim>\<open>event_buf\<close>, a cursor beyond the range of \<^verbatim>\<open>int\<close>).
\<close>

theorem decode_loop_terminates:
  assumes "\<forall>it \<in> set (fst (decode_loop fuel sink buf num_bytes 0 j)).
             unat (e_len (event_at buf (nat (cursor it)))) < 2 ^ 31 - 16"
  shows "length (events_of (concat (map calls (fst (decode_loop fuel sink buf num_bytes 0 j)))))
           \<le> nat num_bytes div 16 \<and>
         successively (\<lambda>a b. cursor a + sizeof_event \<le> cursor b)
           (fst (decode_loop fuel sink buf num_bytes 0 j)) \<and>
         (nat num_bytes div 16 \<le> fuel \<longrightarrow>
            fst (snd (decode_loop fuel sink buf num_bytes 0 j)) \<noteq> OutOfFuel)"
  using decode_loop_bound [OF assms] by simp

theorem decode_loop_terminates_witness:
  "map cursor (fst (decode_loop 2 counting_sink
        (read_into zero_buf (ReadBytes (concat [record_create, record_delete]) 0)) 40 0 0))
     = [0, 24] \<and>
   unat (e_len (event_at
        (read_into zero_buf (ReadBytes (concat [record_create, record_delete]) 0)) 0))
     < 2 ^ 31 - 16 \<and>
   unat (e_len (event_at
        (read_into zero_buf (ReadBytes (concat [record_create, record_delete]) 0)) 24))
     < 2 ^ 31 - 16 \<and>
   length (events_of (concat (map calls (fst (decode_loop 2 counting_sink
        (read_into zero_buf (ReadBytes (concat [record_create, record_delete]) 0)) 40 0 0)))))
     \<le> 2 \<and>
   fst (snd (decode_loop 2 counting_sink
        (read_into zero_buf (ReadBytes (concat [record_create, record_delete]) 0)) 40 0 0))
     \<noteq> OutOfFuel"
proof -
  define b where "b = read_into zero_buf (ReadBytes (concat [record_create, record_delete]) 0)"
  have e0: "e_len (event_at b 0) = 8"
    unfolding b_def
    by (simp add: zero_buf_def record_create_def record_delete_def sizeof_event_buf_def Let_def
        event_at_def field32_def le32_def)
  have e24: "e_len (event_at b 24) = 0"
    unfolding b_def
    by (simp add: zero_buf_def record_create_def record_delete_def sizeof_event_buf_def Let_def
        event_at_def field32_def le32_def)
  have lc: "length (concat [record_create, record_delete]) = 40"
    by (simp add: record_create_def record_delete_def)
  have bb: "b = [] @ concat [record_create, record_delete] @ drop 40 zero_buf"
    unfolding b_def using lc by (simp add: sizeof_event_buf_def Let_def)
  have f1: "field32 record_create 12 = 8"
    by (simp add: record_create_def field32_def le32_def)
  have f2: "field32 record_delete 12 = 0"
    by (simp add: record_delete_def field32_def le32_def)
  have w1: "well_formed_record record_create"
    by (simp add: well_formed_record_def f1) (simp add: record_create_def)
  have w2: "well_formed_record record_delete"
    by (simp add: well_formed_record_def f2) (simp add: record_delete_def)
  have h1: "\<forall>r \<in> set [record_create, record_delete]. well_formed_record r"
    using w1 w2 by simp
  have h2: "length (concat [record_create, record_delete]) \<le> 512"
    by (simp add: record_create_def record_delete_def)
  have h3: "length [record_create, record_delete] \<le> 2" by simp
  have l40: "int (length (concat [record_create, record_delete])) = 40"
    by (simp add: record_create_def record_delete_def)
  have o: "record_offsets 0 [record_create, record_delete] = [0, 24]"
    by (simp add: record_create_def)
  obtain its st j' where dl: "decode_loop 2 counting_sink b 40 0 0 = (its, st, j')"
    by (cases "decode_loop 2 counting_sink b 40 0 0") auto
  have tot: "length ([] :: byte list) + length (concat [record_create, record_delete]) < 2 ^ 31"
    using lc by simp
  from decode_loop_records [OF h1 h2 h3 tot, where sink = counting_sink
      and post = "drop 40 zero_buf" and j = 0]
  have mc: "map cursor its = [0, 24]"
    unfolding l40 bb [symmetric] using dl o by simp
  have "\<forall>c \<in> set (map cursor its). unat (e_len (event_at b (nat c))) < 2 ^ 31 - 16"
    unfolding mc using e0 e24 by simp
  then have hyp: "\<forall>it \<in> set (fst (decode_loop 2 counting_sink b 40 0 0)).
      unat (e_len (event_at b (nat (cursor it)))) < 2 ^ 31 - 16"
    using dl by simp
  from decode_loop_terminates [OF hyp]
  have "length (events_of (concat (map calls (fst (decode_loop 2 counting_sink b 40 0 0))))) \<le> 2 \<and>
      fst (snd (decode_loop 2 counting_sink b 40 0 0)) \<noteq> OutOfFuel"
    by simp
  moreover have "map cursor (fst (decode_loop 2 counting_sink b 40 0 0)) = [0, 24]"
    using mc dl by simp
  ultimately show ?thesis unfolding b_def [symmetric] using e0 e24 by simp
qed

text \<open>
  A header that declares a \<^verbatim>\<open>len\<close> of \<open>2\<^sup>3\<^sup>2 - 16\<close> makes \<^verbatim>\<open>event_size\<close> 0: the pass
  dispatches its event and leaves the cursor and \<^verbatim>\<open>num_bytes\<close> as they were, so the loop
  uses up any fuel.
\<close>

lemma dispatch_wrap:
  "dispatch_event counting_sink (read_into zero_buf (ReadBytes header_wrap 0)) 0 j =
     Some ([Jni_NewStringUTF [], Jni_onEvent 1 256 (Some []), Jni_DeleteLocalRef []], 0, Suc j)"
proof -
  define b where "b = read_into zero_buf (ReadBytes header_wrap 0)"
  have len: "length b = 512"
    unfolding b_def by (simp add: zero_buf_def header_wrap_def sizeof_event_buf_def Let_def)
  have ea: "event_at b 0 = \<lparr>e_wd = 1, e_mask = 256, e_cookie = 0, e_len = 4294967280\<rparr>"
    unfolding b_def
    by (simp add: zero_buf_def header_wrap_def sizeof_event_buf_def Let_def event_at_def
        field32_def le32_def)
  have cs: "c_string b 16 = Some []"
    unfolding b_def
    by (simp add: zero_buf_def header_wrap_def sizeof_event_buf_def Let_def c_string_def)
  have ep: "event_path b (nat 0) = Some (Some [])"
    using ea cs by (simp add: event_path_def)
  have sz: "sint (16 + e_len \<lparr>e_wd = 1, e_mask = 256, e_cookie = 0, e_len = (4294967280 :: uint32)\<rparr>) = 0"
    by simp
  have b1: "(0::int) \<le> 0" by simp
  have b2: "0 + sizeof_event \<le> int (length b)" using len by (simp add: sizeof_event_def)
  have e0: "event_at b (nat 0) = \<lparr>e_wd = 1, e_mask = 256, e_cookie = 0, e_len = 4294967280\<rparr>"
    using ea by simp
  have sk: "counting_sink j (e_wd \<lparr>e_wd = 1, e_mask = 256, e_cookie = 0, e_len = (4294967280 :: uint32)\<rparr>)
      (e_mask \<lparr>e_wd = 1, e_mask = 256, e_cookie = 0, e_len = (4294967280 :: uint32)\<rparr>) (Some []) = (False, Suc j)"
    by (simp add: counting_sink_def)
  show ?thesis
    unfolding b_def [symmetric]
    using dispatch_event_eval [where sink = counting_sink and j = j, OF b1 b2 e0 ep sk] sz by simp
qed

lemma zero_size_record_never_ends:
  "decode_loop fuel counting_sink (read_into zero_buf (ReadBytes header_wrap 0)) 16 0 j =
     (replicate fuel
        \<lparr>cursor = 0,
         calls = [Jni_NewStringUTF [], Jni_onEvent 1 256 (Some []), Jni_DeleteLocalRef []]\<rparr>,
      OutOfFuel, j + fuel)"
proof (induction fuel arbitrary: j)
  case 0
  show ?case by (simp add: sizeof_event_def)
next
  case (Suc f)
  have s: "sizeof_event \<le> 16" by (simp add: sizeof_event_def)
  have rest: "decode_loop f counting_sink (read_into zero_buf (ReadBytes header_wrap 0))
      (16 - 0) (0 + 0) (Suc j) =
     (replicate f
        \<lparr>cursor = 0,
         calls = [Jni_NewStringUTF [], Jni_onEvent 1 256 (Some []), Jni_DeleteLocalRef []]\<rparr>,
      OutOfFuel, Suc j + f)"
    using Suc.IH [of "Suc j"] by simp
  have i1: "in_int_range (16 - 0)" and i2: "in_int_range (0 + 0)"
    by (simp_all add: in_int_range_def)
  show ?case
    using decode_loop_step [OF s dispatch_wrap i1 i2 rest] by simp
qed

text \<open>
  C10 as stated fails: a read returns 16 bytes, the header above. Within two passes the
  loop has dispatched two events, more than \<open>16 div 16\<close>, and has not finished.
\<close>

theorem zero_size_record_counterexample:
  "sizeof_event \<le> read_ret (ReadBytes header_wrap 0) \<and>
   nat (read_ret (ReadBytes header_wrap 0)) div 16 = 1 \<and>
   decode_loop 2 counting_sink (read_into zero_buf (ReadBytes header_wrap 0))
     (read_ret (ReadBytes header_wrap 0)) 0 0 =
     ([\<lparr>cursor = 0,
        calls = [Jni_NewStringUTF [], Jni_onEvent 1 256 (Some []), Jni_DeleteLocalRef []]\<rparr>,
       \<lparr>cursor = 0,
        calls = [Jni_NewStringUTF [], Jni_onEvent 1 256 (Some []), Jni_DeleteLocalRef []]\<rparr>],
      OutOfFuel, 2)"
proof -
  have r: "read_ret (ReadBytes header_wrap 0) = 16"
    by (simp add: header_wrap_def sizeof_event_buf_def)
  show ?thesis
    unfolding r using zero_size_record_never_ends [of 2 0]
    by (simp add: sizeof_event_def numeral_2_eq_2)
qed

subsection \<open>Exceptions of the sink\<close>

text \<open>
  C5. When the sink leaves an exception pending after an event, the calls of that pass
  continue with \<^verbatim>\<open>ExceptionDescribe\<close> and \<^verbatim>\<open>ExceptionClear\<close> right after the callback, and
  the pass ends with the same \<^verbatim>\<open>event_size\<close> and Java state as with a sink that does the
  same and never throws. After a pass whose callback threw, the inner loop goes on at the
  next cursor with what remains of \<^verbatim>\<open>num_bytes\<close>; after an inner loop that finished,
  whatever was thrown in it, the outer loop makes the next read. So a read of \<open>N\<close>
  well-formed records hands all \<open>N\<close> events to the sink, whichever of its calls throw, and
  is followed by the next read. For the whole of \<^verbatim>\<open>observe\<close>, the run with the sink and the
  run with its non-throwing twin have the same status and final Java state and the same
  calls, the two exception calls apart.
\<close>

theorem sink_failure_caught:
  "(\<forall>cs sz j' w m p.
      dispatch_event sink buf event_pos j = Some (cs, sz, j') \<and>
      Jni_onEvent w m p \<in> set cs \<and> fst (sink j w m p) \<longrightarrow>
        (\<exists>pre post. cs = pre @ [Jni_onEvent w m p, Jni_ExceptionDescribe, Jni_ExceptionClear] @ post) \<and>
        dispatch_event (no_throw sink) buf event_pos j = Some (strip_exception_calls cs, sz, j')) \<and>
   (\<forall>cs sz j'.
      sizeof_event \<le> num_bytes \<and> dispatch_event sink buf event_pos j = Some (cs, sz, j') \<and>
      Jni_ExceptionDescribe \<in> set cs \<and>
      in_int_range (num_bytes - sz) \<and> in_int_range (event_pos + sz) \<longrightarrow>
        decode_loop (Suc fuel) sink buf num_bytes event_pos j =
          (case decode_loop fuel sink buf (num_bytes - sz) (event_pos + sz) j' of
             (its, st, j'') \<Rightarrow> (\<lparr>cursor = event_pos, calls = cs\<rparr> # its, st, j''))) \<and>
   (\<forall>its j1.
      sizeof_event \<le> read_ret r \<and>
      decode_loop fuel sink (read_into event_buf r) (read_ret r) 0 j = (its, Finished, j1) \<longrightarrow>
        android_os_fileobserver_observe fuel sink fd (r # script) event_buf j =
          (case android_os_fileobserver_observe fuel sink fd script (read_into event_buf r) j1 of
             (cs, st, j2) \<Rightarrow> (Sys_read fd # concat (map calls its) @ cs, st, j2))) \<and>
   (\<forall>rs e.
      rs \<noteq> [] \<and> (\<forall>r \<in> set rs. well_formed_record r) \<and>
      length (concat rs) \<le> sizeof_event_buf \<and> length rs \<le> fuel \<longrightarrow>
        (\<exists>its j1.
           decode_loop fuel sink (read_into event_buf (ReadBytes (concat rs) e))
             (read_ret (ReadBytes (concat rs) e)) 0 j = (its, Finished, j1) \<and>
           length its = length rs \<and>
           events_of (concat (map calls its)) = map spec_decoded_event rs \<and>
           android_os_fileobserver_observe fuel sink fd (ReadBytes (concat rs) e # script)
             event_buf j =
             (case android_os_fileobserver_observe fuel sink fd script
                     (read_into event_buf (ReadBytes (concat rs) e)) j1 of
                (cs, st, j2) \<Rightarrow> (Sys_read fd # concat (map calls its) @ cs, st, j2)))) \<and>
   android_os_fileobserver_observe fuel (no_throw sink) fd script event_buf j =
     (case android_os_fileobserver_observe fuel sink fd script event_buf j of
        (cs, st, j') \<Rightarrow> (strip_exception_calls cs, st, j'))"
proof (intro conjI allI impI)
  fix cs sz j' w m p
  assume a: "dispatch_event sink buf event_pos j = Some (cs, sz, j') \<and>
      Jni_onEvent w m p \<in> set cs \<and> fst (sink j w m p)"
  then show "\<exists>pre post. cs = pre @ [Jni_onEvent w m p, Jni_ExceptionDescribe, Jni_ExceptionClear] @ post"
    using dispatch_event_throw_calls [of sink buf event_pos j cs sz j' w m p] by simp
  from a show "dispatch_event (no_throw sink) buf event_pos j = Some (strip_exception_calls cs, sz, j')"
    by (simp add: dispatch_event_no_throw)
next
  fix cs sz j'
  assume a: "sizeof_event \<le> num_bytes \<and> dispatch_event sink buf event_pos j = Some (cs, sz, j') \<and>
      Jni_ExceptionDescribe \<in> set cs \<and>
      in_int_range (num_bytes - sz) \<and> in_int_range (event_pos + sz)"
  obtain its st j2 where
    r: "decode_loop fuel sink buf (num_bytes - sz) (event_pos + sz) j' = (its, st, j2)"
    by (cases "decode_loop fuel sink buf (num_bytes - sz) (event_pos + sz) j'") auto
  have "decode_loop (Suc fuel) sink buf num_bytes event_pos j =
      (\<lparr>cursor = event_pos, calls = cs\<rparr> # its, st, j2)"
    using a r by (intro decode_loop_step) simp_all
  then show "decode_loop (Suc fuel) sink buf num_bytes event_pos j =
      (case decode_loop fuel sink buf (num_bytes - sz) (event_pos + sz) j' of
         (its, st, j'') \<Rightarrow> (\<lparr>cursor = event_pos, calls = cs\<rparr> # its, st, j''))"
    unfolding r by simp
next
  fix its j1
  assume a: "sizeof_event \<le> read_ret r \<and>
      decode_loop fuel sink (read_into event_buf r) (read_ret r) 0 j = (its, Finished, j1)"
  obtain cs st j2 where
    o: "android_os_fileobserver_observe fuel sink fd script (read_into event_buf r) j1 = (cs, st, j2)"
    by (cases "android_os_fileobserver_observe fuel sink fd script (read_into event_buf r) j1") auto
  have "android_os_fileobserver_observe fuel sink fd (r # script) event_buf j =
      (Sys_read fd # concat (map calls its) @ cs, st, j2)"
    using a o by (intro observe_events_step) simp_all
  then show "android_os_fileobserver_observe fuel sink fd (r # script) event_buf j =
      (case android_os_fileobserver_observe fuel sink fd script (read_into event_buf r) j1 of
         (cs, st, j2) \<Rightarrow> (Sys_read fd # concat (map calls its) @ cs, st, j2))"
    unfolding o by simp
next
  fix rs e
  assume a: "rs \<noteq> [] \<and> (\<forall>r \<in> set rs. well_formed_record r) \<and>
      length (concat rs) \<le> sizeof_event_buf \<and> length rs \<le> fuel"
  then show "\<exists>its j1.
           decode_loop fuel sink (read_into event_buf (ReadBytes (concat rs) e))
             (read_ret (ReadBytes (concat rs) e)) 0 j = (its, Finished, j1) \<and>
           length its = length rs \<and>
           events_of (concat (map calls its)) = map spec_decoded_event rs \<and>
           android_os_fileobserver_observe fuel sink fd (ReadBytes (concat rs) e # script)
             event_buf j =
             (case android_os_fileobserver_observe fuel sink fd script
                     (read_into event_buf (ReadBytes (concat rs) e)) j1 of
                (cs, st, j2) \<Rightarrow> (Sys_read fd # concat (map calls its) @ cs, st, j2))"
    using observe_records [of rs fuel sink event_buf e j fd script] by blast
next
  show "android_os_fileobserver_observe fuel (no_throw sink) fd script event_buf j =
     (case android_os_fileobserver_observe fuel sink fd script event_buf j of
        (cs, st, j') \<Rightarrow> (strip_exception_calls cs, st, j'))"
    by (rule observe_no_throw)
qed

theorem sink_failure_caught_witness:
  "decode_loop 2 throwing_sink
     (read_into zero_buf (ReadBytes (concat [record_create, record_delete]) 0)) 40 0 0 =
     ([\<lparr>cursor = 0,
        calls = [Jni_NewStringUTF [97, 46, 116, 120, 116],
                 Jni_onEvent 1 256 (Some [97, 46, 116, 120, 116]),
                 Jni_ExceptionDescribe, Jni_ExceptionClear,
                 Jni_DeleteLocalRef [97, 46, 116, 120, 116]]\<rparr>,
       \<lparr>cursor = 24,
        calls = [Jni_onEvent 1 512 None, Jni_ExceptionDescribe, Jni_ExceptionClear]\<rparr>],
      Finished, 2) \<and>
   android_os_fileobserver_observe 2 throwing_sink 3
     [ReadBytes (concat [record_create, record_delete]) 0, ReadFail 9] zero_buf 0 =
     ([Sys_read 3,
       Jni_NewStringUTF [97, 46, 116, 120, 116],
       Jni_onEvent 1 256 (Some [97, 46, 116, 120, 116]),
       Jni_ExceptionDescribe, Jni_ExceptionClear,
       Jni_DeleteLocalRef [97, 46, 116, 120, 116],
       Jni_onEvent 1 512 None, Jni_ExceptionDescribe, Jni_ExceptionClear,
       Sys_read 3, ALOGE_short_event], Returned, 2) \<and>
   android_os_fileobserver_observe 2 (no_throw throwing_sink) 3
     [ReadBytes (concat [record_create, record_delete]) 0, ReadFail 9] zero_buf 0 =
     ([Sys_read 3,
       Jni_NewStringUTF [97, 46, 116, 120, 116],
       Jni_onEvent 1 256 (Some [97, 46, 116, 120, 116]),
       Jni_DeleteLocalRef [97, 46, 116, 120, 116],
       Jni_onEvent 1 512 None,
       Sys_read 3, ALOGE_short_event], Returned, 2) \<and>
   fst (throwing_sink 0 1 256 (Some [97, 46, 116, 120, 116])) \<and>
   dispatch_event (no_throw throwing_sink)
     (read_into zero_buf (ReadBytes (concat [record_create, record_delete]) 0)) 0 0 =
     Some ([Jni_NewStringUTF [97, 46, 116, 120, 116],
            Jni_onEvent 1 256 (Some [97, 46, 116, 120, 116]),
            Jni_DeleteLocalRef [97, 46, 116, 120, 116]], 24, 1)"
proof -
  define rd where "rd = ReadBytes (concat [record_create, record_delete]) 0"
  define b where "b = read_into zero_buf rd"
  let ?n = "[97, 46, 116, 120, 116] :: byte list"
  let ?cs0 = "[Jni_NewStringUTF ?n, Jni_onEvent 1 256 (Some ?n),
      Jni_ExceptionDescribe, Jni_ExceptionClear, Jni_DeleteLocalRef ?n]"
  let ?cs1 = "[Jni_onEvent 1 512 None, Jni_ExceptionDescribe, Jni_ExceptionClear]"
  have r: "read_ret rd = 40"
    unfolding rd_def by (simp add: record_create_def record_delete_def sizeof_event_buf_def)
  have len: "length b = 512"
    unfolding b_def rd_def
    by (simp add: zero_buf_def record_create_def record_delete_def sizeof_event_buf_def Let_def)
  have ea0: "event_at b (nat 0) = \<lparr>e_wd = 1, e_mask = 256, e_cookie = 0, e_len = 8\<rparr>"
    unfolding b_def rd_def
    by (simp add: zero_buf_def record_create_def record_delete_def sizeof_event_buf_def Let_def
        event_at_def field32_def le32_def)
  have ea1: "event_at b (nat 24) = \<lparr>e_wd = 1, e_mask = 512, e_cookie = 0, e_len = 0\<rparr>"
    unfolding b_def rd_def
    by (simp add: zero_buf_def record_create_def record_delete_def sizeof_event_buf_def Let_def
        event_at_def field32_def le32_def)
  have cstr: "c_string b 16 = Some ?n"
    unfolding b_def rd_def
    by (simp add: zero_buf_def record_create_def record_delete_def sizeof_event_buf_def Let_def
        c_string_def)
  have ep0: "event_path b (nat 0) = Some (Some ?n)"
    using ea0 cstr by (simp add: event_path_def)
  have ep1: "event_path b (nat 24) = Some None"
    using ea1 by (simp add: event_path_def)
  have b0: "(0::int) \<le> 0" and b24: "(0::int) \<le> 24" by simp_all
  have in0: "0 + sizeof_event \<le> int (length b)" using len by (simp add: sizeof_event_def)
  have in24: "24 + sizeof_event \<le> int (length b)" using len by (simp add: sizeof_event_def)
  have sk0: "throwing_sink 0 (e_wd \<lparr>e_wd = 1, e_mask = 256, e_cookie = 0, e_len = (8 :: uint32)\<rparr>)
      (e_mask \<lparr>e_wd = 1, e_mask = 256, e_cookie = 0, e_len = (8 :: uint32)\<rparr>) (Some ?n) = (True, 1)"
    by (simp add: throwing_sink_def)
  have sk1: "throwing_sink 1 (e_wd \<lparr>e_wd = 1, e_mask = 512, e_cookie = 0, e_len = (0 :: uint32)\<rparr>)
      (e_mask \<lparr>e_wd = 1, e_mask = 512, e_cookie = 0, e_len = (0 :: uint32)\<rparr>) None = (True, 2)"
    by (simp add: throwing_sink_def)
  have d0: "dispatch_event throwing_sink b 0 0 = Some (?cs0, 24, 1)"
    using dispatch_event_eval [where sink = throwing_sink and j = 0, OF b0 in0 ea0 ep0 sk0] by simp
  have d1: "dispatch_event throwing_sink b 24 1 = Some (?cs1, 16, 2)"
    using dispatch_event_eval [where sink = throwing_sink and j = 1, OF b24 in24 ea1 ep1 sk1] by simp
  have s16: "sizeof_event \<le> 16" and s40: "sizeof_event \<le> 40" by (simp_all add: sizeof_event_def)
  have rest: "decode_loop 0 throwing_sink b (16 - 16) (24 + 16) 2 = ([], Finished, 2)"
    by (rule decode_loop_done) (simp add: sizeof_event_def)
  have i1: "in_int_range (16 - 16)" "in_int_range (24 + 16)" "in_int_range (40 - 24)"
    "in_int_range (0 + 24)"
    by (simp_all add: in_int_range_def)
  have m1: "Jni_ExceptionDescribe \<in> set ?cs1" and m0: "Jni_ExceptionDescribe \<in> set ?cs0"
    by simp_all
  from sink_failure_caught [of throwing_sink b 24 1 16 0, THEN conjunct2, THEN conjunct1,
      THEN spec, THEN spec, THEN spec, of ?cs1 16 2] s16 d1 m1 i1
  have p1: "decode_loop (Suc 0) throwing_sink b 16 24 1 =
      (case decode_loop 0 throwing_sink b (16 - 16) (24 + 16) 2 of
         (its, st, j'') \<Rightarrow> (\<lparr>cursor = 24, calls = ?cs1\<rparr> # its, st, j''))"
    by blast
  have l1: "decode_loop (Suc 0) throwing_sink b (40 - 24) (0 + 24) 1 =
      ([\<lparr>cursor = 24, calls = ?cs1\<rparr>], Finished, 2)"
    using p1 rest by simp
  from sink_failure_caught [of throwing_sink b 0 0 40 "Suc 0", THEN conjunct2, THEN conjunct1,
      THEN spec, THEN spec, THEN spec, of ?cs0 24 1] s40 d0 m0 i1
  have p0: "decode_loop (Suc (Suc 0)) throwing_sink b 40 0 0 =
      (case decode_loop (Suc 0) throwing_sink b (40 - 24) (0 + 24) 1 of
         (its, st, j'') \<Rightarrow> (\<lparr>cursor = 0, calls = ?cs0\<rparr> # its, st, j''))"
    by blast
  have l2: "decode_loop 2 throwing_sink b 40 0 0 =
      ([\<lparr>cursor = 0, calls = ?cs0\<rparr>, \<lparr>cursor = 24, calls = ?cs1\<rparr>], Finished, 2)"
    using p0 unfolding l1 by (simp add: numeral_2_eq_2)
  have tl: "android_os_fileobserver_observe 2 throwing_sink 3 [ReadFail 9] b 2 =
      ([Sys_read 3, ALOGE_short_event], Returned, 2)"
    by (simp add: sizeof_event_def EINTR_def)
  have ge: "sizeof_event \<le> read_ret rd" unfolding r by (rule s40)
  have l2': "decode_loop 2 throwing_sink (read_into zero_buf rd) (read_ret rd) 0 0 =
      ([\<lparr>cursor = 0, calls = ?cs0\<rparr>, \<lparr>cursor = 24, calls = ?cs1\<rparr>], Finished, 2)"
    unfolding r b_def [symmetric] by (rule l2)
  from sink_failure_caught [of throwing_sink b 0 0 40 2 rd zero_buf 3 "[ReadFail 9]",
      THEN conjunct2, THEN conjunct2, THEN conjunct1, THEN spec, THEN spec,
      of "[\<lparr>cursor = 0, calls = ?cs0\<rparr>, \<lparr>cursor = 24, calls = ?cs1\<rparr>]" 2] ge l2'
  have "android_os_fileobserver_observe 2 throwing_sink 3 (rd # [ReadFail 9]) zero_buf 0 =
      (case android_os_fileobserver_observe 2 throwing_sink 3 [ReadFail 9] (read_into zero_buf rd) 2 of
         (cs, st, j2) \<Rightarrow>
           (Sys_read 3 # concat (map calls
              [\<lparr>cursor = 0, calls = ?cs0\<rparr>, \<lparr>cursor = 24, calls = ?cs1\<rparr>]) @ cs, st, j2))"
    by blast
  then have o1: "android_os_fileobserver_observe 2 throwing_sink 3 [rd, ReadFail 9] zero_buf 0 =
      ([Sys_read 3, Jni_NewStringUTF ?n, Jni_onEvent 1 256 (Some ?n),
        Jni_ExceptionDescribe, Jni_ExceptionClear, Jni_DeleteLocalRef ?n,
        Jni_onEvent 1 512 None, Jni_ExceptionDescribe, Jni_ExceptionClear,
        Sys_read 3, ALOGE_short_event], Returned, 2)"
    unfolding b_def [symmetric] tl by simp
  have st: "strip_exception_calls [Sys_read 3, Jni_NewStringUTF ?n, Jni_onEvent 1 256 (Some ?n),
        Jni_ExceptionDescribe, Jni_ExceptionClear, Jni_DeleteLocalRef ?n,
        Jni_onEvent 1 512 None, Jni_ExceptionDescribe, Jni_ExceptionClear,
        Sys_read 3, ALOGE_short_event] =
      [Sys_read 3, Jni_NewStringUTF ?n, Jni_onEvent 1 256 (Some ?n), Jni_DeleteLocalRef ?n,
        Jni_onEvent 1 512 None, Sys_read 3, ALOGE_short_event]"
    by (simp add: strip_exception_calls_def)
  from sink_failure_caught [of throwing_sink b 0 0 40 2 rd zero_buf 3 "[rd, ReadFail 9]",
      THEN conjunct2, THEN conjunct2, THEN conjunct2, THEN conjunct2]
  have o2: "android_os_fileobserver_observe 2 (no_throw throwing_sink) 3 [rd, ReadFail 9] zero_buf 0 =
      ([Sys_read 3, Jni_NewStringUTF ?n, Jni_onEvent 1 256 (Some ?n), Jni_DeleteLocalRef ?n,
        Jni_onEvent 1 512 None, Sys_read 3, ALOGE_short_event], Returned, 2)"
    unfolding o1 using st by simp
  have t: "fst (throwing_sink 0 1 256 (Some ?n))" by (simp add: throwing_sink_def)
  have mo: "Jni_onEvent 1 256 (Some ?n) \<in> set ?cs0" by simp
  have st0: "strip_exception_calls ?cs0 =
      [Jni_NewStringUTF ?n, Jni_onEvent 1 256 (Some ?n), Jni_DeleteLocalRef ?n]"
    by (simp add: strip_exception_calls_def)
  from sink_failure_caught [of throwing_sink b 0 0, THEN conjunct1, THEN spec, THEN spec,
      THEN spec, THEN spec, THEN spec, THEN spec, of ?cs0 24 1 1 256 "Some ?n"] d0 mo t
  have "dispatch_event (no_throw throwing_sink) b 0 0 = Some (strip_exception_calls ?cs0, 24, 1)"
    by blast
  then have nt: "dispatch_event (no_throw throwing_sink) b 0 0 =
      Some ([Jni_NewStringUTF ?n, Jni_onEvent 1 256 (Some ?n), Jni_DeleteLocalRef ?n], 24, 1)"
    unfolding st0 .
  show ?thesis
    using l2 o1 o2 t nt unfolding b_def rd_def by simp
qed

end
